theory Spec2Isabelle
  imports Complex_Main
begin

chapter \<open>Tree CRF inside algorithms and the diagonal-stripe accessor\<close>

text \<open>
  The development embeds \<^verbatim>\<open>supar/utils/fn.py\<close> (the function \<^verbatim>\<open>stripe\<close>) and
  \<^verbatim>\<open>supar/modules/treecrf.py\<close> (the classes \<^verbatim>\<open>CRFDependency\<close>,
  \<^verbatim>\<open>CRF2oDependency\<close> and \<^verbatim>\<open>CRFConstituency\<close>).

  Tensors appear at two levels. The function \<^verbatim>\<open>stripe\<close> is about strides and storage
  sharing, so it is modelled over an explicit store: a heap of flat buffers and strided views
  into them. The CRF code only reads the stripes it takes and writes its tables through
  \<^verbatim>\<open>diagonal(...).copy_\<close>, so there a tensor is a shape with its elements in row-major
  order, and a stripe of such a tensor is obtained by running the store-level \<^verbatim>\<open>stripe\<close>
  on it and reading the resulting view back.

  Floating-point numbers are idealised: a value is a real number, one of the two infinities, or
  NaN. Arithmetic on finite values is exact (no rounding, no overflow); the special values follow
  IEEE 754.
\<close>

section \<open>Definitions\<close>

subsection \<open>Row-major indexing\<close>

text \<open>
  \<open>flat_index sh idx\<close> is the position of the multi-index \<open>idx\<close> in the row-major
  enumeration \<open>indices sh\<close> of all multi-indices of a tensor of shape \<open>sh\<close>.
\<close>

fun flat_index :: "nat list \<Rightarrow> nat list \<Rightarrow> nat" where
  "flat_index (d # ds) (i # is) = i * prod_list ds + flat_index ds is"
| "flat_index _ _ = 0"

fun in_range :: "nat list \<Rightarrow> nat list \<Rightarrow> bool" where
  "in_range [] [] = True"
| "in_range (d # ds) (i # is) = (i < d \<and> in_range ds is)"
| "in_range _ _ = False"

fun indices :: "nat list \<Rightarrow> nat list list" where
  "indices [] = [[]]"
| "indices (d # ds) = concat (map (\<lambda>i. map ((#) i) (indices ds)) [0..<d])"

text \<open>A tensor as a value: its shape and its elements in row-major order.\<close>

record 'a tensor =
  shape :: "nat list"
  elems :: "'a list"

definition tabulate :: "nat list \<Rightarrow> (nat list \<Rightarrow> 'a) \<Rightarrow> 'a tensor" where
  "tabulate sh f = \<lparr>shape = sh, elems = map f (indices sh)\<rparr>"

definition tget :: "'a tensor \<Rightarrow> nat list \<Rightarrow> 'a" where
  "tget t idx = elems t ! flat_index (shape t) idx"

definition wf_tensor :: "'a tensor \<Rightarrow> bool" where
  "wf_tensor t = (length (elems t) = prod_list (shape t))"

subsection \<open>Errors\<close>

text \<open>The exceptions the modelled code can raise.\<close>

datatype error = IndexError | RuntimeError | TypeError

definition ebind :: "error + 'a \<Rightarrow> ('a \<Rightarrow> error + 'b) \<Rightarrow> error + 'b" where
  "ebind m f = (case m of Inl e \<Rightarrow> Inl e | Inr a \<Rightarrow> f a)"

fun for_each :: "('i \<Rightarrow> 's \<Rightarrow> error + 's) \<Rightarrow> 'i list \<Rightarrow> 's \<Rightarrow> error + 's" where
  "for_each body [] st = Inr st"
| "for_each body (w # ws) st = ebind (body w st) (for_each body ws)"

subsection \<open>The store: buffers and strided views\<close>

text \<open>
  A heap is a list of flat buffers (the storages); a view names a buffer and gives the storage
  offset, the sizes and the strides, as a PyTorch tensor does. Element \<open>idx\<close> of a view lives
  at position \<open>voffset + idx \<bullet> vstrides\<close> of its buffer.
\<close>

type_synonym 'a heap = "'a list list"

record view =
  base :: nat
  voffset :: nat
  vsizes :: "nat list"
  vstrides :: "nat list"

fun dot :: "nat list \<Rightarrow> nat list \<Rightarrow> nat" where
  "dot (i # is) (s # ss) = i * s + dot is ss"
| "dot _ _ = 0"

definition vget :: "'a heap \<Rightarrow> view \<Rightarrow> nat list \<Rightarrow> 'a" where
  "vget h v idx = (h ! base v) ! (voffset v + dot idx (vstrides v))"

definition vset :: "'a heap \<Rightarrow> view \<Rightarrow> nat list \<Rightarrow> 'a \<Rightarrow> 'a heap" where
  "vset h v idx a = h[base v := (h ! base v)[voffset v + dot idx (vstrides v) := a]]"

definition materialize :: "'a heap \<Rightarrow> view \<Rightarrow> 'a tensor" where
  "materialize h v = tabulate (vsizes v) (vget h v)"

text \<open>The strides of a freshly allocated (row-major) tensor.\<close>

fun cstrides :: "nat list \<Rightarrow> nat list" where
  "cstrides [] = []"
| "cstrides (d # ds) = prod_list ds # cstrides ds"

text \<open>
  \<^verbatim>\<open>Tensor.is_contiguous()\<close>: a tensor without elements is contiguous; otherwise every
  dimension of size other than one must have the row-major stride (dimensions of size one are
  skipped, whatever their stride).
\<close>

fun is_contig :: "nat list \<Rightarrow> nat list \<Rightarrow> bool" where
  "is_contig [] [] = True"
| "is_contig (d # ds) (s # ss) = ((d = 1 \<or> s = prod_list ds) \<and> is_contig ds ss)"
| "is_contig _ _ = False"

definition is_contiguous :: "view \<Rightarrow> bool" where
  "is_contiguous v = (prod_list (vsizes v) = 0 \<or> is_contig (vsizes v) (vstrides v))"

text \<open>
  \<^verbatim>\<open>Tensor.contiguous()\<close>: the tensor itself when it is contiguous, otherwise a row-major
  copy in a new buffer.
\<close>

definition contiguous :: "'a heap \<Rightarrow> view \<Rightarrow> 'a heap \<times> view" where
  "contiguous h v =
     (if is_contiguous v then (h, v)
      else (h @ [map (vget h v) (indices (vsizes v))],
            \<lparr>base = length h, voffset = 0, vsizes = vsizes v, vstrides = cstrides (vsizes v)\<rparr>))"

text \<open>
  \<^verbatim>\<open>Tensor.as_strided(size, stride, storage_offset)\<close>: a view of the same buffer with the
  given geometry; the storage offset is absolute in the buffer. It raises when a size or the
  offset is negative, and when the geometry reaches beyond the buffer (an empty geometry never
  does).
\<close>

definition storage_needed :: "nat list \<Rightarrow> nat list \<Rightarrow> nat \<Rightarrow> nat" where
  "storage_needed sz st off =
     (if 0 \<in> set sz then 0 else off + 1 + dot (map (\<lambda>d. d - 1) sz) st)"

definition as_strided :: "'a heap \<Rightarrow> view \<Rightarrow> int list \<Rightarrow> nat list \<Rightarrow> int \<Rightarrow> error + view" where
  "as_strided h x sizes stride storage_offset =
     (if (\<exists>d \<in> set sizes. d < 0) \<or> storage_offset < 0 \<or> length sizes \<noteq> length stride
      then Inl RuntimeError
      else if length (h ! base x) < storage_needed (map nat sizes) stride (nat storage_offset)
      then Inl RuntimeError
      else Inr \<lparr>base = base x, voffset = nat storage_offset,
                vsizes = map nat sizes, vstrides = stride\<rparr>)"

text \<open>A view is well formed in a heap when its buffer exists and holds all its elements.\<close>

definition wf_view :: "'a heap \<Rightarrow> view \<Rightarrow> bool" where
  "wf_view h v = (base v < length h \<and> length (vstrides v) = length (vsizes v) \<and>
                  storage_needed (vsizes v) (vstrides v) (voffset v) \<le> length (h ! base v))"

subsection \<open>\<^verbatim>\<open>supar/utils/fn.py\<close>: stripe\<close>

text \<open>
  \<^verbatim>\<open>
  def stripe(x, n, w, offset=(0, 0), dim=1):
      x, seq_len = x.contiguous(), x.size(1)
      stride, numel = list(x.stride()), x[0, 0].numel()
      stride[0] = (seq_len + 1) * numel
      stride[1] = (1 if dim == 1 else seq_len) * numel
      return x.as_strided(size=(n, w, *x.shape[2:]),
                          stride=stride,
                          storage_offset=(offset[0]*seq_len+offset[1])*numel)
  \<close>
  \<^verbatim>\<open>x.size(1)\<close> raises IndexError on a tensor of fewer than two dimensions, and
  \<^verbatim>\<open>x[0, 0]\<close> raises IndexError when one of the first two dimensions is empty. The
  function returns the heap (which \<^verbatim>\<open>contiguous\<close> may have extended) and the view.
\<close>

definition stripe ::
  "'a heap \<Rightarrow> view \<Rightarrow> int \<Rightarrow> int \<Rightarrow> int \<times> int \<Rightarrow> int \<Rightarrow> error + ('a heap \<times> view)" where
  "stripe h x0 n w offset dimen =
     (let (h', x) = contiguous h x0 in
      if length (vsizes x0) < 2 then Inl IndexError
      else
        let seq_len = vsizes x0 ! 1 in
        if vsizes x ! 0 = 0 \<or> vsizes x ! 1 = 0 then Inl IndexError
        else
          let stride = vstrides x;
              numel = prod_list (drop 2 (vsizes x));
              stride = stride[0 := (seq_len + 1) * numel];
              stride = stride[1 := (if dimen = 1 then 1 else seq_len) * numel]
          in case as_strided h' x (n # w # map int (drop 2 (vsizes x))) stride
                    ((fst offset * int seq_len + snd offset) * int numel) of
               Inl e \<Rightarrow> Inl e
             | Inr v \<Rightarrow> Inr (h', v))"

text \<open>
  The element of \<open>x\<close> that entry \<open>(r, c)\<close> of a stripe stands for, and the condition that
  all these elements exist in a table with \<open>d0\<close> rows and \<open>d1\<close> columns.
\<close>

definition stripe_src :: "nat \<times> nat \<Rightarrow> int \<Rightarrow> nat \<Rightarrow> nat \<Rightarrow> nat list" where
  "stripe_src offset dimen r c =
     (if dimen = 1 then [fst offset + r, snd offset + r + c]
      else [fst offset + r + c, snd offset + r])"

definition stripe_bounds :: "nat \<Rightarrow> nat \<Rightarrow> nat \<Rightarrow> nat \<Rightarrow> nat \<times> nat \<Rightarrow> int \<Rightarrow> bool" where
  "stripe_bounds d0 d1 n w offset dimen =
     (\<forall>r < n. \<forall>c < w. in_range [d0, d1] (stripe_src offset dimen r c))"

text \<open>
  Reading a stripe of a tensor value: the tensor is placed in a heap of its own, as a freshly
  allocated tensor is laid out, \<open>stripe\<close> runs there, and the view it returns is read back.
\<close>

definition view_of :: "'a tensor \<Rightarrow> view" where
  "view_of t = \<lparr>base = 0, voffset = 0, vsizes = shape t, vstrides = cstrides (shape t)\<rparr>"

definition stripe_t :: "'a tensor \<Rightarrow> nat \<Rightarrow> nat \<Rightarrow> nat \<times> nat \<Rightarrow> int \<Rightarrow> error + 'a tensor" where
  "stripe_t x n w offset dimen =
     (case stripe [elems x] (view_of x) (int n) (int w) (int (fst offset), int (snd offset)) dimen of
        Inl e \<Rightarrow> Inl e
      | Inr (h, v) \<Rightarrow> Inr (materialize h v))"

subsection \<open>Values\<close>

text \<open>
  A score is a real number, an infinity or NaN. Addition, negation, \<open>exp\<close> and \<open>log\<close> on the
  special values are those of IEEE 754; on finite values they are exact. \<open>lse\<close> is
  \<^verbatim>\<open>logsumexp\<close> along one axis, \<open>log (\<Sum> exp x)\<close>; \<open>fdiv\<close> divides by a count, as
  \<^verbatim>\<open>(logZ - score) / total\<close> does with the integer tensor \<^verbatim>\<open>total\<close>.
\<close>

datatype fval = Fin real | PInf | NInf | NaN

fun fadd :: "fval \<Rightarrow> fval \<Rightarrow> fval" where
  "fadd NaN _ = NaN"
| "fadd _ NaN = NaN"
| "fadd PInf NInf = NaN"
| "fadd NInf PInf = NaN"
| "fadd PInf _ = PInf"
| "fadd _ PInf = PInf"
| "fadd NInf _ = NInf"
| "fadd _ NInf = NInf"
| "fadd (Fin a) (Fin b) = Fin (a + b)"

fun fneg :: "fval \<Rightarrow> fval" where
  "fneg (Fin a) = Fin (- a)"
| "fneg PInf = NInf"
| "fneg NInf = PInf"
| "fneg NaN = NaN"

definition fsub :: "fval \<Rightarrow> fval \<Rightarrow> fval" where
  "fsub a b = fadd a (fneg b)"

fun fexp :: "fval \<Rightarrow> fval" where
  "fexp (Fin a) = Fin (exp a)"
| "fexp PInf = PInf"
| "fexp NInf = Fin 0"
| "fexp NaN = NaN"

fun flog :: "fval \<Rightarrow> fval" where
  "flog (Fin a) = (if a < 0 then NaN else if a = 0 then NInf else Fin (ln a))"
| "flog PInf = PInf"
| "flog NInf = NaN"
| "flog NaN = NaN"

definition fsum :: "fval list \<Rightarrow> fval" where
  "fsum xs = foldr fadd xs (Fin 0)"

definition lse :: "fval list \<Rightarrow> fval" where
  "lse xs = flog (fsum (map fexp xs))"

fun fdiv :: "fval \<Rightarrow> nat \<Rightarrow> fval" where
  "fdiv (Fin a) n =
     (if n = 0 then (if 0 < a then PInf else if a < 0 then NInf else NaN)
      else Fin (a / real n))"
| "fdiv PInf n = PInf"
| "fdiv NInf n = NInf"
| "fdiv NaN n = NaN"

subsection \<open>Tensor primitives used by the CRF code\<close>

text \<open>
  Each primitive is given by the shape of its result and the element at every index. The
  in-place operations of the source (\<^verbatim>\<open>copy_\<close>, \<^verbatim>\<open>fill_\<close>, item assignment) return the
  updated tensor. \<open>diagonal\<close>, \<open>diagonal_copy\<close> and \<open>diagonal_fill\<close> are the offset diagonal
  of the first two dimensions of a tensor with a trailing batch dimension
  (\<^verbatim>\<open>t.diagonal(k)\<close> has the diagonal as its last dimension).
\<close>

definition pos_of :: "nat list \<Rightarrow> nat \<Rightarrow> nat" where
  "pos_of perm d = length (takeWhile (\<lambda>p. p \<noteq> d) perm)"

definition permute :: "'a tensor \<Rightarrow> nat list \<Rightarrow> 'a tensor" where
  "permute t perm =
     tabulate (map (\<lambda>p. shape t ! p) perm)
       (\<lambda>idx. tget t (map (\<lambda>d. idx ! pos_of perm d) [0..<length perm]))"

definition full_like :: "'b tensor \<Rightarrow> 'a \<Rightarrow> 'a tensor" where
  "full_like t a = tabulate (shape t) (\<lambda>idx. a)"

definition tadd :: "fval tensor \<Rightarrow> fval tensor \<Rightarrow> fval tensor" where
  "tadd a b = tabulate (shape a) (\<lambda>idx. fadd (tget a idx) (tget b idx))"

definition logsumexp :: "fval tensor \<Rightarrow> fval tensor" where
  "logsumexp t =
     tabulate (butlast (shape t))
       (\<lambda>idx. lse (map (\<lambda>c. tget t (idx @ [c])) [0..<last (shape t)]))"

definition diag_len :: "nat \<Rightarrow> nat \<Rightarrow> int \<Rightarrow> nat" where
  "diag_len d0 d1 k = (if 0 \<le> k then min d0 (d1 - nat k) else min (d0 - nat (- k)) d1)"

definition diag_index :: "int \<Rightarrow> nat \<Rightarrow> nat list" where
  "diag_index k p = (if 0 \<le> k then [p, p + nat k] else [p + nat (- k), p])"

definition on_diag :: "int \<Rightarrow> nat list \<Rightarrow> bool" where
  "on_diag k idx = (int (idx ! 1) - int (idx ! 0) = k)"

definition diagonal :: "'a tensor \<Rightarrow> int \<Rightarrow> 'a tensor" where
  "diagonal t k =
     tabulate (drop 2 (shape t) @ [diag_len (shape t ! 0) (shape t ! 1) k])
       (\<lambda>idx. tget t (diag_index k (last idx) @ butlast idx))"

definition diagonal_copy :: "'a tensor \<Rightarrow> int \<Rightarrow> 'a tensor \<Rightarrow> 'a tensor" where
  "diagonal_copy t k src =
     tabulate (shape t)
       (\<lambda>idx. if on_diag k idx then tget src (drop 2 idx @ [min (idx ! 0) (idx ! 1)])
               else tget t idx)"

definition diagonal_fill :: "'a tensor \<Rightarrow> int \<Rightarrow> 'a \<Rightarrow> 'a tensor" where
  "diagonal_fill t k a =
     tabulate (shape t) (\<lambda>idx. if on_diag k idx then a else tget t idx)"

text \<open>\<^verbatim>\<open>t.index_fill(d, [i], a)\<close>, also the item assignment \<^verbatim>\<open>t[i] = a\<close> for \<open>d = 0\<close>.\<close>

definition index_fill :: "'a tensor \<Rightarrow> nat \<Rightarrow> nat \<Rightarrow> 'a \<Rightarrow> 'a tensor" where
  "index_fill t d i a = tabulate (shape t) (\<lambda>idx. if idx ! d = i then a else tget t idx)"

definition masked_fill :: "'a tensor \<Rightarrow> bool tensor \<Rightarrow> 'a \<Rightarrow> 'a tensor" where
  "masked_fill t m a = tabulate (shape t) (\<lambda>idx. if tget m idx then a else tget t idx)"

definition tand :: "bool tensor \<Rightarrow> bool tensor \<Rightarrow> bool tensor" where
  "tand a b = tabulate (shape a) (\<lambda>idx. tget a idx \<and> tget b idx)"

definition tnot :: "bool tensor \<Rightarrow> bool tensor" where
  "tnot a = tabulate (shape a) (\<lambda>idx. \<not> tget a idx)"

text \<open>\<^verbatim>\<open>t.squeeze(1)\<close> of a tensor whose second dimension has size one.\<close>

definition squeeze1 :: "'a tensor \<Rightarrow> 'a tensor" where
  "squeeze1 t = tabulate (shape t ! 0 # drop 2 (shape t)) (\<lambda>idx. tget t (idx ! 0 # 0 # tl idx))"

text \<open>The item assignment \<^verbatim>\<open>t[:, c] = v\<close> on a tensor of three dimensions.\<close>

definition set_column :: "'a tensor \<Rightarrow> nat \<Rightarrow> 'a tensor \<Rightarrow> 'a tensor" where
  "set_column t c v =
     tabulate (shape t) (\<lambda>idx. if idx ! 1 = c then tget v [idx ! 0, idx ! 2] else tget t idx)"

text \<open>
  Advanced indexing \<^verbatim>\<open>t[rows, cols]\<close> with two index lists of the same length on the first
  two dimensions; an index out of range raises IndexError.
\<close>

definition index_pairs :: "'a tensor \<Rightarrow> nat list \<Rightarrow> nat list \<Rightarrow> error + 'a tensor" where
  "index_pairs t rows cols =
     (if list_ex (\<lambda>r. shape t ! 0 \<le> r) rows \<or> list_ex (\<lambda>c. shape t ! 1 \<le> c) cols
      then Inl IndexError
      else Inr (tabulate (length rows # drop 2 (shape t))
                  (\<lambda>idx. tget t (rows ! (idx ! 0) # cols ! (idx ! 0) # tl idx))))"

text \<open>Counting the true entries: \<^verbatim>\<open>mask.sum(1)\<close> of a mask of two dimensions, and \<^verbatim>\<open>mask.sum()\<close>.\<close>

definition count_true :: "bool list \<Rightarrow> nat" where
  "count_true bs = length (filter (\<lambda>b. b) bs)"

definition sum1 :: "bool tensor \<Rightarrow> nat list" where
  "sum1 msk =
     map (\<lambda>b. count_true (map (\<lambda>i. tget msk [b, i]) [0..<shape msk ! 1])) [0..<shape msk ! 0]"


text \<open>
  \<^verbatim>\<open>s[0].gather(0, lens.unsqueeze(0))\<close> on a table \<open>s\<close> of shape \<open>[L, L, B]\<close>: the entries
  \<open>s[0, lens[b], b]\<close>. \<^verbatim>\<open>s[0]\<close> raises IndexError on an empty first dimension, and
  \<^verbatim>\<open>gather\<close> raises RuntimeError on an index out of range.
\<close>

definition gather_lens :: "fval tensor \<Rightarrow> nat list \<Rightarrow> error + fval list" where
  "gather_lens s lens =
     (if shape s ! 0 = 0 then Inl IndexError
      else if list_ex (\<lambda>b. shape s ! 1 \<le> lens ! b) [0..<shape s ! 2] then Inl RuntimeError
      else Inr (map (\<lambda>b. tget s [0, lens ! b, b]) [0..<shape s ! 2]))"

text \<open>
  \<^verbatim>\<open>Tensor.register_hook\<close> raises RuntimeError on a tensor that does not require a
  gradient; the hook itself only acts on the backward pass.
\<close>

definition register_hook :: "bool \<Rightarrow> error + unit" where
  "register_hook requires_grad = (if requires_grad then Inr () else Inl RuntimeError)"

text \<open>What a \<^verbatim>\<open>forward\<close> returns: the probabilities alone, or the loss and the probabilities.\<close>

datatype forward_result = Probs "fval tensor" | LossProbs fval "fval tensor"

text \<open>The default of an optional argument: \<open>None\<close> stands for an argument that is not passed.\<close>

definition default_arg :: "'a \<Rightarrow> 'a option \<Rightarrow> 'a" where
  "default_arg d a = (case a of None \<Rightarrow> d | Some v \<Rightarrow> v)"

subsection \<open>\<^verbatim>\<open>supar/modules/treecrf.py\<close>: CRFDependency\<close>

text \<open>
  The candidate restriction of \<^verbatim>\<open>inside\<close> (lines 53 to 59), on the permuted scores of
  shape \<open>[L, L, B]\<close>: position 0 is made valid in the mask and unconstrained in the candidates,
  and the score of the arc with head \<open>j\<close> and dependent \<open>i\<close> is kept when both positions are
  valid and the candidate of \<open>i\<close> is \<open>j\<close> or negative. \<^verbatim>\<open>index_fill(1, [0], ...)\<close> raises
  IndexError on an empty dimension.
\<close>

definition apply_cands :: "fval tensor \<Rightarrow> bool tensor \<Rightarrow> int tensor \<Rightarrow> error + fval tensor" where
  "apply_cands scores msk cands =
     (let batch_size = shape msk ! 0; seq_len = shape msk ! 1 in
      if seq_len = 0 then Inl IndexError
      else
        let msk = index_fill msk 1 0 True;
            msk = permute (tabulate [batch_size, seq_len, seq_len]
                     (\<lambda>idx. tget msk [idx ! 0, idx ! 2] \<and> tget msk [idx ! 0, idx ! 1])) [2, 1, 0];
            cands = index_fill cands 1 0 (- 1);
            cands = tabulate [batch_size, seq_len, seq_len]
                     (\<lambda>idx. tget cands [idx ! 0, idx ! 1] = int (idx ! 2)
                            \<or> tget cands [idx ! 0, idx ! 1] < 0);
            cands = tand (permute cands [2, 1, 0]) msk
        in Inr (masked_fill scores (tnot cands) NInf))"

text \<open>\<^verbatim>\<open>s_c[0, w][lens.ne(w)] = float('-inf')\<close>\<close>

definition root_fill :: "fval tensor \<Rightarrow> nat \<Rightarrow> nat list \<Rightarrow> fval tensor" where
  "root_fill s_c w lens =
     tabulate (shape s_c)
       (\<lambda>idx. if idx ! 0 = 0 \<and> idx ! 1 = w \<and> lens ! (idx ! 2) \<noteq> w then NInf else tget s_c idx)"

text \<open>
  One iteration of the loop \<^verbatim>\<open>for w in range(1, seq_len)\<close> of \<^verbatim>\<open>CRFDependency.inside\<close>
  (lines 61 to 90). The hooks of lines 83 and 87 are registered unconditionally, so the
  iteration raises when the scores do not require a gradient.
\<close>

definition inside_step ::
  "fval tensor \<Rightarrow> nat list \<Rightarrow> nat \<Rightarrow> bool \<Rightarrow> nat \<Rightarrow> fval tensor \<times> fval tensor
     \<Rightarrow> error + fval tensor \<times> fval tensor" where
  "inside_step scores lens seq_len requires_grad w st =
     (let (s_i, s_c) = st; n = seq_len - w in
      ebind (stripe_t s_c n w (0, 0) 1) (\<lambda>a.
      ebind (stripe_t s_c n w (w, 1) 1) (\<lambda>b.
      let ilr = tadd a b;
          il = logsumexp (permute ilr [2, 0, 1]);
          ir = il;
          s_i = diagonal_copy s_i (- int w) (tadd il (diagonal scores (- int w)));
          s_i = diagonal_copy s_i (int w) (tadd ir (diagonal scores (int w)))
      in
      ebind (stripe_t s_c n w (0, 0) 0) (\<lambda>a.
      ebind (stripe_t s_i n w (w, 0) 1) (\<lambda>b.
      let cl = tadd a b in
      ebind (register_hook requires_grad) (\<lambda>_.
      let s_c = diagonal_copy s_c (- int w) (logsumexp (permute cl [2, 0, 1])) in
      ebind (stripe_t s_i n w (0, 1) 1) (\<lambda>a.
      ebind (stripe_t s_c n w (1, w) 0) (\<lambda>b.
      let cr = tadd a b in
      ebind (register_hook requires_grad) (\<lambda>_.
      let s_c = diagonal_copy s_c (int w) (logsumexp (permute cr [2, 0, 1]));
          s_c = root_fill s_c w lens
      in Inr (s_i, s_c))))))))))"

text \<open>
  \<^verbatim>\<open>CRFDependency.inside(scores, mask, cands)\<close>; \<open>requires_grad\<close> says whether the scores
  require a gradient. It returns the tables \<open>(s_i, s_c)\<close>, of shape \<open>[L, L, B]\<close>.
\<close>

definition CRFDependency_inside ::
  "fval tensor \<Rightarrow> bool tensor \<Rightarrow> int tensor option \<Rightarrow> bool
     \<Rightarrow> error + fval tensor \<times> fval tensor" where
  "CRFDependency_inside scores msk cands requires_grad =
     (let lens = sum1 msk;
          seq_len = shape scores ! 1;
          scores = permute scores [2, 1, 0];
          s_i = full_like scores NInf;
          s_c = full_like scores NInf;
          s_c = diagonal_fill s_c 0 (Fin 0)
      in
      ebind (case cands of None \<Rightarrow> Inr scores | Some c \<Rightarrow> apply_cands scores msk c) (\<lambda>scores.
      for_each (inside_step scores lens seq_len requires_grad) [1..<seq_len] (s_i, s_c)))"




subsection \<open>\<^verbatim>\<open>supar/modules/treecrf.py\<close>: CRF2oDependency\<close>

text \<open>
  One iteration of the loop of \<^verbatim>\<open>CRF2oDependency.inside\<close> (lines 159 to 212), on the
  permuted arc scores \<open>s_arc\<close> of shape \<open>[L, L, B]\<close> (head, dependent, batch) and sibling
  scores \<open>s_sib\<close> of shape \<open>[L, L, L, B]\<close> (head, dependent, sibling, batch).
\<close>

definition inside2o_step ::
  "fval tensor \<Rightarrow> fval tensor \<Rightarrow> nat list \<Rightarrow> nat \<Rightarrow> bool \<Rightarrow> nat
     \<Rightarrow> fval tensor \<times> fval tensor \<times> fval tensor
     \<Rightarrow> error + fval tensor \<times> fval tensor \<times> fval tensor" where
  "inside2o_step s_arc s_sib lens seq_len requires_grad w st =
     (let (s_i, s_s, s_c) = st; n = seq_len - w in
      ebind (stripe_t s_i n w (w, 1) 1) (\<lambda>a.
      ebind (stripe_t s_s n w (1, 0) 0) (\<lambda>b.
      let il = tadd a b in
      ebind (index_pairs s_sib [w..<n + w] [0..<n]) (\<lambda>sib.
      ebind (stripe_t sib n w (0, 1) 1) (\<lambda>a.
      let il = tadd il a in
      ebind (stripe_t s_c n 1 (w, w) 1) (\<lambda>a.
      ebind (stripe_t s_c n 1 (0, w - 1) 1) (\<lambda>b.
      let il0 = tadd a b;
          il = set_column il (w - 1) (squeeze1 (index_fill il0 0 0 (Fin 0)));
          il = logsumexp (permute il [2, 0, 1]);
          s_i = diagonal_copy s_i (- int w) (tadd il (diagonal s_arc (- int w)))
      in
      ebind (stripe_t s_i n w (0, 0) 1) (\<lambda>a.
      ebind (stripe_t s_s n w (0, w) 0) (\<lambda>b.
      let ir = tadd a b in
      ebind (index_pairs s_sib [0..<n] [w..<n + w]) (\<lambda>sib.
      ebind (stripe_t sib n w (0, 0) 1) (\<lambda>a.
      let ir = tadd ir a;
          ir = index_fill ir 0 0 NInf
      in
      ebind (stripe_t s_c n 1 (0, 0) 1) (\<lambda>a.
      ebind (stripe_t s_c n 1 (w, 1) 1) (\<lambda>b.
      let ir0 = tadd a b;
          ir = set_column ir 0 (squeeze1 ir0);
          ir = logsumexp (permute ir [2, 0, 1]);
          s_i = diagonal_copy s_i (int w) (tadd ir (diagonal s_arc (int w)))
      in
      ebind (stripe_t s_c n w (0, 0) 1) (\<lambda>a.
      ebind (stripe_t s_c n w (w, 1) 1) (\<lambda>b.
      let slr = tadd a b;
          slr = logsumexp (permute slr [2, 0, 1]);
          s_s = diagonal_copy s_s (- int w) slr;
          s_s = diagonal_copy s_s (int w) slr
      in
      ebind (stripe_t s_c n w (0, 0) 0) (\<lambda>a.
      ebind (stripe_t s_i n w (w, 0) 1) (\<lambda>b.
      let cl = tadd a b in
      ebind (register_hook requires_grad) (\<lambda>_.
      let s_c = diagonal_copy s_c (- int w) (logsumexp (permute cl [2, 0, 1])) in
      ebind (stripe_t s_i n w (0, 1) 1) (\<lambda>a.
      ebind (stripe_t s_c n w (1, w) 0) (\<lambda>b.
      let cr = tadd a b in
      ebind (register_hook requires_grad) (\<lambda>_.
      let s_c = diagonal_copy s_c (int w) (logsumexp (permute cr [2, 0, 1]));
          s_c = root_fill s_c w lens
      in Inr (s_i, s_s, s_c))))))))))))))))))))))"

text \<open>
  \<^verbatim>\<open>CRF2oDependency.inside(scores, mask, cands)\<close> with \<^verbatim>\<open>scores = (s_arc, s_sib)\<close>; it
  returns the tables \<open>(s_i, s_s, s_c)\<close>.
\<close>

definition CRF2oDependency_inside ::
  "fval tensor \<times> fval tensor \<Rightarrow> bool tensor \<Rightarrow> int tensor option \<Rightarrow> bool
     \<Rightarrow> error + fval tensor \<times> fval tensor \<times> fval tensor" where
  "CRF2oDependency_inside scores msk cands requires_grad =
     (let lens = sum1 msk;
          (s_arc, s_sib) = scores;
          seq_len = shape s_arc ! 1;
          s_arc = permute s_arc [2, 1, 0];
          s_sib = permute s_sib [2, 1, 3, 0];
          s_i = full_like s_arc NInf;
          s_s = full_like s_arc NInf;
          s_c = full_like s_arc NInf;
          s_c = diagonal_fill s_c 0 (Fin 0)
      in
      ebind (case cands of None \<Rightarrow> Inr s_arc | Some c \<Rightarrow> apply_cands s_arc msk c) (\<lambda>s_arc.
      for_each (inside2o_step s_arc s_sib lens seq_len requires_grad) [1..<seq_len] (s_i, s_s, s_c)))"




subsection \<open>\<^verbatim>\<open>supar/modules/treecrf.py\<close>: CRFConstituency\<close>

text \<open>
  One iteration of the loop of \<^verbatim>\<open>CRFConstituency.inside\<close> (lines 249 to 264), on the
  permuted scores of shape \<open>[L, L, B]\<close>; the hook of line 262 is guarded by
  \<^verbatim>\<open>requires_grad\<close>, so nothing raises here.
\<close>

definition inside_const_step ::
  "fval tensor \<Rightarrow> nat \<Rightarrow> nat \<Rightarrow> fval tensor \<Rightarrow> error + fval tensor" where
  "inside_const_step scores seq_len w s =
     (let n = seq_len - w in
      if w = 1 then Inr (diagonal_copy s (int w) (diagonal scores (int w)))
      else
        ebind (stripe_t s n (w - 1) (0, 1) 1) (\<lambda>a.
        ebind (stripe_t s n (w - 1) (1, w) 0) (\<lambda>b.
        let s_s = tadd a b;
            s_s = permute s_s [2, 0, 1];
            s_s = logsumexp s_s
        in Inr (diagonal_copy s (int w) (tadd s_s (diagonal scores (int w)))))))"

text \<open>\<^verbatim>\<open>CRFConstituency.inside(scores, mask)\<close>; the mask is permuted and not used.\<close>

definition CRFConstituency_inside :: "fval tensor \<Rightarrow> bool tensor \<Rightarrow> error + fval tensor" where
  "CRFConstituency_inside scores msk =
     (let seq_len = shape scores ! 1;
          scores = permute scores [1, 2, 0];
          msk = permute msk [1, 2, 0];
          s = full_like scores NInf
      in for_each (inside_const_step scores seq_len) [1..<seq_len] s)"

text \<open>\<^verbatim>\<open>lens = mask[:, 0].sum(-1)\<close> of a mask of shape \<open>[B, L, L]\<close>.\<close>

definition first_row_sum :: "bool tensor \<Rightarrow> nat list" where
  "first_row_sum msk =
     map (\<lambda>b. count_true (map (\<lambda>j. tget msk [b, 0, j]) [0..<shape msk ! 2])) [0..<shape msk ! 0]"

definition const_logZ :: "bool tensor \<Rightarrow> fval tensor \<Rightarrow> error + fval" where
  "const_logZ msk scores =
     ebind (CRFConstituency_inside scores msk) (\<lambda>s.
     ebind (gather_lens s (first_row_sum msk)) (\<lambda>z. Inr (fsum z)))"

text \<open>
  \<^verbatim>\<open>CRFConstituency.forward(scores, mask, target=None, mbr=False)\<close>. The method has no
  parameter \<^verbatim>\<open>partial\<close>: a call that passes one raises TypeError.
  \<^verbatim>\<open>mask[:, 0]\<close> raises IndexError when the mask has no row.
\<close>

definition CRFConstituency_forward ::
  "((fval tensor \<Rightarrow> error + fval) \<Rightarrow> fval tensor \<Rightarrow> fval tensor)
     \<Rightarrow> fval tensor \<Rightarrow> bool tensor \<Rightarrow> bool tensor option \<Rightarrow> bool option \<Rightarrow> bool option
     \<Rightarrow> error + forward_result" where
  "CRFConstituency_forward autograd_grad scores msk target mbr_arg partial_arg =
     (if partial_arg \<noteq> None then Inl TypeError
      else if shape msk ! 1 = 0 then Inl IndexError
      else
        let mbr = default_arg False mbr_arg;
            lens = first_row_sum msk;
            total = sum_list lens
        in
        ebind (const_logZ msk scores) (\<lambda>logZ.
        let probs = (if mbr then autograd_grad (const_logZ msk) scores else scores) in
        case target of
          None \<Rightarrow> Inr (Probs probs)
        | Some tgt \<Rightarrow>
            Inr (LossProbs
                   (fdiv (fsub logZ
                      (fsum (map (tget scores)
                         (filter (\<lambda>p. tget msk p \<and> tget tgt p) (indices (shape scores))))))
                      total)
                   probs)))"

subsection \<open>The recurrences, as the tables are to satisfy them\<close>

text \<open>
  The sums over split points of the first-order recurrence, for a span \<open>(i, j)\<close> with
  \<open>i < j\<close> of batch element \<open>b\<close>:
  \<^item> \<open>arc_sum\<close>: over \<open>r\<close> in \<open>[i, j)\<close> of \<open>C(i, r) + C(j, r + 1)\<close>;
  \<^item> \<open>left_sum\<close>: over \<open>r\<close> in \<open>[i, j)\<close> of \<open>C(r, i) + I(j, r)\<close>;
  \<^item> \<open>right_sum\<close>: over \<open>r\<close> in \<open>(i, j]\<close> of \<open>I(i, r) + C(r, j)\<close>.
\<close>

definition arc_sum :: "fval tensor \<Rightarrow> nat \<Rightarrow> nat \<Rightarrow> nat \<Rightarrow> fval" where
  "arc_sum s_c i j b = lse (map (\<lambda>r. fadd (tget s_c [i, r, b]) (tget s_c [j, r + 1, b])) [i..<j])"

definition left_sum :: "fval tensor \<Rightarrow> fval tensor \<Rightarrow> nat \<Rightarrow> nat \<Rightarrow> nat \<Rightarrow> fval" where
  "left_sum s_i s_c i j b = lse (map (\<lambda>r. fadd (tget s_c [r, i, b]) (tget s_i [j, r, b])) [i..<j])"

definition right_sum :: "fval tensor \<Rightarrow> fval tensor \<Rightarrow> nat \<Rightarrow> nat \<Rightarrow> nat \<Rightarrow> fval" where
  "right_sum s_i s_c i j b =
     lse (map (\<lambda>r. fadd (tget s_i [i, r, b]) (tget s_c [r, j, b])) [i + 1..<j + 1])"

text \<open>
  The score of the arc with head \<open>h\<close> and dependent \<open>d\<close> that the recurrence of batch
  element \<open>b\<close> uses: the input score \<^verbatim>\<open>scores[b, d, h]\<close>, or \<open>-\<infinity>\<close> when a candidate
  restriction excludes the arc (position 0 is always valid and unconstrained).
\<close>

definition arc_score :: "fval tensor \<Rightarrow> bool tensor \<Rightarrow> int tensor option \<Rightarrow> nat \<Rightarrow> nat \<Rightarrow> nat \<Rightarrow> fval" where
  "arc_score scores msk cands h d b =
     (case cands of
        None \<Rightarrow> tget scores [b, d, h]
      | Some c \<Rightarrow>
          if (d = 0 \<or> tget c [b, d] = int h \<or> tget c [b, d] < 0)
             \<and> (h = 0 \<or> tget msk [b, h]) \<and> (d = 0 \<or> tget msk [b, d])
          then tget scores [b, d, h] else NInf)"

text \<open>
  The first-order recurrence at the span \<open>(i, i + w)\<close> of batch element \<open>b\<close>, with the root
  exception of line 90: the complete span from position 0 is \<open>-\<infinity>\<close> unless its width is the
  length of the sentence. \<open>scores\<close> are the permuted scores (head, dependent, batch).
\<close>

definition dep_recurrence ::
  "fval tensor \<Rightarrow> nat list \<Rightarrow> fval tensor \<Rightarrow> fval tensor \<Rightarrow> nat \<Rightarrow> nat \<Rightarrow> nat \<Rightarrow> bool" where
  "dep_recurrence scores lens s_i s_c w i b =
     (let j = i + w in
      tget s_i [j, i, b] = fadd (arc_sum s_c i j b) (tget scores [j, i, b]) \<and>
      tget s_i [i, j, b] = fadd (arc_sum s_c i j b) (tget scores [i, j, b]) \<and>
      tget s_c [j, i, b] = left_sum s_i s_c i j b \<and>
      tget s_c [i, j, b] = (if i = 0 \<and> lens ! b \<noteq> w then NInf else right_sum s_i s_c i j b))"

text \<open>Two tables agree on the band of the entries \<open>(i, j)\<close> with \<open>|i - j| < k\<close>.\<close>

definition band_eq :: "nat \<Rightarrow> nat \<Rightarrow> nat \<Rightarrow> fval tensor \<Rightarrow> fval tensor \<Rightarrow> bool" where
  "band_eq L B k t t' =
     (\<forall>i j b. i < L \<longrightarrow> j < L \<longrightarrow> b < B \<longrightarrow> i < j + k \<longrightarrow> j < i + k \<longrightarrow>
        tget t' [i, j, b] = tget t [i, j, b])"

text \<open>The invariant of the first-order loop before the iteration of width \<open>k\<close>.\<close>

definition dep_inv ::
  "fval tensor \<Rightarrow> nat list \<Rightarrow> nat \<Rightarrow> nat \<Rightarrow> nat \<Rightarrow> fval tensor \<times> fval tensor \<Rightarrow> bool" where
  "dep_inv scores lens L B k st =
     (case st of (s_i, s_c) \<Rightarrow>
        shape s_i = [L, L, B] \<and> wf_tensor s_i \<and> shape s_c = [L, L, B] \<and> wf_tensor s_c
        \<and> (\<forall>i b. i < L \<longrightarrow> b < B \<longrightarrow> tget s_c [i, i, b] = Fin 0)
        \<and> (\<forall>w i b. 0 < w \<longrightarrow> w < k \<longrightarrow> i + w < L \<longrightarrow> b < B \<longrightarrow>
              dep_recurrence scores lens s_i s_c w i b))"

text \<open>
  The sums of the second-order recurrence for the incomplete spans of \<open>(i, j)\<close> with \<open>i < j\<close>;
  \<open>s_sib\<close> is the permuted sibling tensor (head, dependent, sibling, batch).
  \<^item> \<open>sib_left_sum\<close>, for \<open>I(j, i)\<close>: over the inner splits \<open>r\<close> in \<open>(i, j)\<close> of
    \<open>I(j, r) + S(r, i) + sib(j, i, r)\<close>, together with the first-child term
    \<open>C(j, j) + C(i, j - 1)\<close>, which is replaced by 0 when \<open>i = 0\<close> (line 173);
  \<^item> \<open>sib_right_sum\<close>, for \<open>I(i, j)\<close>: the first-child term \<open>C(i, i) + C(j, i + 1)\<close> together
    with, over the inner splits \<open>r\<close> in \<open>(i, j)\<close>, \<open>I(i, r) + S(r, j) + sib(i, j, r)\<close>, each
    replaced by \<open>-\<infinity>\<close> when \<open>i = 0\<close> (line 184).
\<close>

definition sib_left_sum ::
  "fval tensor \<Rightarrow> fval tensor \<Rightarrow> fval tensor \<Rightarrow> fval tensor \<Rightarrow> nat \<Rightarrow> nat \<Rightarrow> nat \<Rightarrow> fval" where
  "sib_left_sum s_i s_s s_c s_sib i j b =
     lse (map (\<lambda>r. fadd (fadd (tget s_i [j, r, b]) (tget s_s [r, i, b])) (tget s_sib [j, i, r, b]))
            [i + 1..<j]
          @ [if i = 0 then Fin 0 else fadd (tget s_c [j, j, b]) (tget s_c [i, j - 1, b])])"

definition sib_right_sum ::
  "fval tensor \<Rightarrow> fval tensor \<Rightarrow> fval tensor \<Rightarrow> fval tensor \<Rightarrow> nat \<Rightarrow> nat \<Rightarrow> nat \<Rightarrow> fval" where
  "sib_right_sum s_i s_s s_c s_sib i j b =
     lse (fadd (tget s_c [i, i, b]) (tget s_c [j, i + 1, b])
          # map (\<lambda>r. if i = 0 then NInf
                     else fadd (fadd (tget s_i [i, r, b]) (tget s_s [r, j, b])) (tget s_sib [i, j, r, b]))
              [i + 1..<j])"

text \<open>The second-order recurrence at the span \<open>(i, i + w)\<close> of batch element \<open>b\<close>.\<close>

definition dep2o_recurrence ::
  "fval tensor \<Rightarrow> fval tensor \<Rightarrow> nat list \<Rightarrow> fval tensor \<Rightarrow> fval tensor \<Rightarrow> fval tensor
     \<Rightarrow> nat \<Rightarrow> nat \<Rightarrow> nat \<Rightarrow> bool" where
  "dep2o_recurrence s_arc s_sib lens s_i s_s s_c w i b =
     (let j = i + w in
      tget s_i [j, i, b] = fadd (sib_left_sum s_i s_s s_c s_sib i j b) (tget s_arc [j, i, b]) \<and>
      tget s_i [i, j, b] = fadd (sib_right_sum s_i s_s s_c s_sib i j b) (tget s_arc [i, j, b]) \<and>
      tget s_s [j, i, b] = arc_sum s_c i j b \<and>
      tget s_s [i, j, b] = arc_sum s_c i j b \<and>
      tget s_c [j, i, b] = left_sum s_i s_c i j b \<and>
      tget s_c [i, j, b] = (if i = 0 \<and> lens ! b \<noteq> w then NInf else right_sum s_i s_c i j b))"

text \<open>The invariant of the second-order loop before the iteration of width \<open>k\<close>.\<close>

definition dep2o_inv ::
  "fval tensor \<Rightarrow> fval tensor \<Rightarrow> nat list \<Rightarrow> nat \<Rightarrow> nat \<Rightarrow> nat
     \<Rightarrow> fval tensor \<times> fval tensor \<times> fval tensor \<Rightarrow> bool" where
  "dep2o_inv s_arc s_sib lens L B k st =
     (case st of (s_i, s_s, s_c) \<Rightarrow>
        shape s_i = [L, L, B] \<and> wf_tensor s_i \<and> shape s_s = [L, L, B] \<and> wf_tensor s_s
        \<and> shape s_c = [L, L, B] \<and> wf_tensor s_c
        \<and> (\<forall>i b. i < L \<longrightarrow> b < B \<longrightarrow> tget s_c [i, i, b] = Fin 0)
        \<and> (\<forall>w i b. 0 < w \<longrightarrow> w < k \<longrightarrow> i + w < L \<longrightarrow> b < B \<longrightarrow>
              dep2o_recurrence s_arc s_sib lens s_i s_s s_c w i b))"






subsection \<open>The gradient hooks and the reductions they guard\<close>












subsection \<open>Example inputs\<close>

text \<open>
  The table of the docstring of \<^verbatim>\<open>stripe\<close> (\<^verbatim>\<open>torch.arange(25).view(5, 5)\<close>); a transposed
  2 x 2 table (not contiguous); and the last row of a 2 x 2 table, as the slice
  \<^verbatim>\<open>y[1:]\<close> gives it (contiguous, at storage offset 2).
\<close>

definition ex_heap :: "int heap" where
  "ex_heap = [[0, 1, 2, 3, 4, 5, 6, 7, 8, 9, 10, 11, 12, 13, 14, 15, 16, 17, 18, 19, 20, 21, 22, 23, 24]]"

definition ex_view :: view where
  "ex_view = \<lparr>base = 0, voffset = 0, vsizes = [5, 5], vstrides = [5, 1]\<rparr>"

definition tr_heap :: "int heap" where "tr_heap = [[1, 2, 3, 4]]"

definition tr_view :: view where
  "tr_view = \<lparr>base = 0, voffset = 0, vsizes = [2, 2], vstrides = [1, 2]\<rparr>"

definition sl_heap :: "int heap" where "sl_heap = [[10, 11, 12, 13]]"

definition sl_view :: view where
  "sl_view = \<lparr>base = 0, voffset = 2, vsizes = [1, 2], vstrides = [2, 1]\<rparr>"

text \<open>
  One sentence of three positions, the root and two words, with all scores zero: scores of shape
  \<open>[1, 3, 3]\<close> and the mask \<open>[[False, True, True]]\<close>.
\<close>

definition ex3_scores :: "fval tensor" where
  "ex3_scores = \<lparr>shape = [1, 3, 3], elems = replicate 9 (Fin 0)\<rparr>"

definition ex3_mask :: "bool tensor" where
  "ex3_mask = \<lparr>shape = [1, 3], elems = [False, True, True]\<rparr>"


text \<open>Sibling scores for the same sentence, of shape \<open>[1, 3, 3, 3]\<close>, all zero.\<close>

definition ex3_sib :: "fval tensor" where
  "ex3_sib = \<lparr>shape = [1, 3, 3, 3], elems = replicate 27 (Fin 0)\<rparr>"












section \<open>Row-major indexing: basic facts\<close>

lemma length_indices: "length (indices sh) = prod_list sh"
proof (induction sh)
  case Nil show ?case by simp
next
  case (Cons d ds)
  have "length (concat (map (\<lambda>i. map ((#) i) (indices ds)) [0..<d])) = d * prod_list ds"
    using Cons by (induction d) simp_all
  then show ?case by simp
qed

lemma concat_blocks_nth:
  assumes "\<And>i. i < d \<Longrightarrow> length (f i) = m" and "i < d" and "j < m"
  shows "concat (map f [0..<d]) ! (i * m + j) = f i ! j"
  using assms
proof (induction d)
  case 0 then show ?case by simp
next
  case (Suc d)
  have len: "length (concat (map f [0..<d])) = d * m"
    using Suc.prems(1) by (induction d) simp_all
  show ?case
  proof (cases "i < d")
    case True
    then have "i * m + j < d * m"
      using Suc.prems(3)
      by (metis Suc_leI add.commute mult_Suc nat_add_left_cancel_less le_trans linorder_not_less mult_le_mono1)
    with True Suc show ?thesis by (simp add: nth_append len)
  next
    case False
    with Suc.prems have "i = d" by simp
    with Suc.prems show ?thesis by (simp add: nth_append len)
  qed
qed

lemma flat_index_less: "in_range sh idx \<Longrightarrow> flat_index sh idx < prod_list sh"
proof (induction sh idx rule: in_range.induct)
  case (2 d ds i "is")
  then have a: "i < d" and b: "flat_index ds is < prod_list ds" by simp_all
  have "i * prod_list ds + flat_index ds is < Suc i * prod_list ds" using b by simp
  also have "\<dots> \<le> d * prod_list ds" using a by (intro mult_le_mono1) simp
  finally show ?case by simp
qed simp_all

lemma indices_nth: "in_range sh idx \<Longrightarrow> indices sh ! flat_index sh idx = idx"
proof (induction sh idx rule: in_range.induct)
  case (2 d ds i "is")
  then have a: "i < d" and r: "in_range ds is" by simp_all
  have b: "flat_index ds is < prod_list ds" using r by (rule flat_index_less)
  have "concat (map (\<lambda>i. map ((#) i) (indices ds)) [0..<d]) ! (i * prod_list ds + flat_index ds is)
        = map ((#) i) (indices ds) ! flat_index ds is"
    by (rule concat_blocks_nth) (simp_all add: length_indices a b)
  also have "\<dots> = i # is" using b 2 r by (simp add: length_indices)
  finally show ?case by simp
qed simp_all

lemma shape_tabulate [simp]: "shape (tabulate sh f) = sh"
  by (simp add: tabulate_def)

lemma wf_tabulate [simp]: "wf_tensor (tabulate sh f)"
  by (simp add: tabulate_def wf_tensor_def length_indices)

lemma tget_tabulate: "in_range sh idx \<Longrightarrow> tget (tabulate sh f) idx = f idx"
  by (simp add: tabulate_def tget_def flat_index_less length_indices indices_nth)

section \<open>The stripe accessor\<close>

subsection \<open>Addresses in strided views\<close>

lemma in_range_length: "in_range sh idx \<Longrightarrow> length idx = length sh"
  by (induction sh idx rule: in_range.induct) simp_all

lemma in_range_pos: "in_range sh idx \<Longrightarrow> 0 \<notin> set sh"
  by (induction sh idx rule: in_range.induct) auto

lemma dot_cstrides: "length idx = length sh \<Longrightarrow> dot idx (cstrides sh) = flat_index sh idx"
  by (induction sh idx rule: flat_index.induct) simp_all

lemma length_cstrides [simp]: "length (cstrides sh) = length sh"
  by (induction sh) simp_all

lemma is_contig_cstrides [simp]: "is_contig sh (cstrides sh)"
  by (induction sh) simp_all

lemma dot_contig: "is_contig sz st \<Longrightarrow> in_range sz idx \<Longrightarrow> dot idx st = flat_index sz idx"
proof (induction sz st arbitrary: idx rule: is_contig.induct)
  case 1 then show ?case by (cases idx) simp_all
next
  case (2 d ds s ss)
  then obtain i "is" where idx: "idx = i # is" by (cases idx) auto
  with 2 show ?case by auto
qed simp_all

lemma dot_le_max:
  "in_range sz idx \<Longrightarrow> length st = length sz \<Longrightarrow> dot idx st \<le> dot (map (\<lambda>d. d - 1) sz) st"
proof (induction sz idx arbitrary: st rule: in_range.induct)
  case (2 d ds i "is")
  then obtain s ss where st: "st = s # ss" by (cases st) auto
  have "i * s \<le> (d - 1) * s" using 2 by (intro mult_le_mono1) auto
  moreover have "dot is ss \<le> dot (map (\<lambda>d. d - 1) ds) ss" using 2 st by simp
  ultimately have "i * s + dot is ss \<le> (d - 1) * s + dot (map (\<lambda>d. d - 1) ds) ss"
    by (rule add_mono)
  then show ?case using st by simp
qed simp_all

lemma address_less_needed:
  "in_range sz idx \<Longrightarrow> length st = length sz \<Longrightarrow> off + dot idx st < storage_needed sz st off"
  using dot_le_max [of sz idx st] in_range_pos [of sz idx]
  by (simp add: storage_needed_def)

lemma in_range_max: "0 \<notin> set sz \<Longrightarrow> in_range sz (map (\<lambda>d. d - 1) sz)"
  by (induction sz) auto

lemma wf_view_address:
  "wf_view h v \<Longrightarrow> in_range (vsizes v) idx \<Longrightarrow> voffset v + dot idx (vstrides v) < length (h ! base v)"
  using address_less_needed [of "vsizes v" idx "vstrides v" "voffset v"]
  by (simp add: wf_view_def)

text \<open>\<open>contiguous\<close> keeps the sizes and the elements, and its result is well formed.\<close>

lemma contiguous_sizes: "contiguous h x = (h', x') \<Longrightarrow> vsizes x' = vsizes x"
  by (auto simp: contiguous_def split: if_splits)

lemma contiguous_vget:
  assumes "contiguous h x = (h', x')" and "in_range (vsizes x) idx"
  shows "vget h' x' idx = vget h x idx"
proof (cases "is_contiguous x")
  case True with assms show ?thesis by (simp add: contiguous_def)
next
  case False
  have "flat_index (vsizes x) idx < length (indices (vsizes x))"
    using assms(2) by (simp add: length_indices flat_index_less)
  with False assms show ?thesis
    by (auto simp: contiguous_def vget_def dot_cstrides in_range_length indices_nth)
qed

lemma contiguous_result_contig:
  assumes "contiguous h x = (h', x')" and "0 \<notin> set (vsizes x)"
  shows "is_contig (vsizes x') (vstrides x')"
  using assms by (auto simp: contiguous_def is_contiguous_def prod_list_zero_iff split: if_splits)

lemma contiguous_wf:
  assumes "contiguous h x = (h', x')" and "wf_view h x"
  shows "wf_view h' x'"
proof (cases "is_contiguous x")
  case True with assms show ?thesis by (simp add: contiguous_def)
next
  case False
  have "storage_needed sz (cstrides sz) 0 \<le> prod_list sz" for sz
  proof (cases "0 \<in> set sz")
    case True then show ?thesis by (simp add: storage_needed_def)
  next
    case False
    then have "in_range sz (map (\<lambda>d. d - 1) sz)" by (rule in_range_max)
    from flat_index_less [OF this] False show ?thesis
      by (simp add: storage_needed_def dot_cstrides)
  qed
  with False assms show ?thesis
    by (auto simp: contiguous_def wf_view_def length_indices)
qed

subsection \<open>What \<open>stripe\<close> returns\<close>

text \<open>
  For a well-formed input whose first two dimensions are not empty and which, when contiguous,
  starts at storage offset zero, \<open>stripe\<close> succeeds whenever the elements it stands for exist;
  entry \<open>(r, c)\<close> of the view it returns lives at the address of the element
  \<open>stripe_src offset dim r c\<close> of the (contiguous version of the) input.
\<close>

lemma contig_address:
  assumes "is_contig (d0 # d1 # rest) (s0 # s1 # srest)" and "a < d0" and "b < d1"
  shows "dot (a # b # k) (s0 # s1 # srest) = a * (d1 * prod_list rest) + b * prod_list rest + dot k srest"
proof -
  have "a * s0 = a * (d1 * prod_list rest)" using assms by auto
  moreover have "b * s1 = b * prod_list rest" using assms by auto
  ultimately show ?thesis by (simp only: dot.simps add.assoc)
qed

lemma stripe_address:
  assumes "is_contig (d0 # d1 # rest) (s0 # s1 # srest)"
    and "in_range [d0, d1] (stripe_src (o0, o1) dimen r c)"
  shows "(o0 * d1 + o1) * prod_list rest
           + dot (r # c # k) (((d1 + 1) * prod_list rest) # ((if dimen = 1 then 1 else d1) * prod_list rest) # srest)
         = dot (stripe_src (o0, o1) dimen r c @ k) (s0 # s1 # srest)"
proof (cases "dimen = 1")
  case True
  with assms(2) have "o0 + r < d0" "o1 + r + c < d1" by (simp_all add: stripe_src_def)
  from contig_address [OF assms(1) this] True show ?thesis
    by (simp add: stripe_src_def algebra_simps)
next
  case False
  with assms(2) have "o0 + r + c < d0" "o1 + r < d1" by (simp_all add: stripe_src_def)
  from contig_address [OF assms(1) this] False show ?thesis
    by (simp add: stripe_src_def algebra_simps)
qed

lemma stripe_ok:
  assumes wf: "wf_view h x"
    and sz: "vsizes x = d0 # d1 # rest"
    and pos: "0 < d0" "0 < d1"
    and off0: "is_contiguous x \<Longrightarrow> voffset x = 0"
    and bounds: "stripe_bounds d0 d1 n w (o0, o1) dimen"
    and cont: "contiguous h x = (h', x')"
  shows "\<exists>v. stripe h x (int n) (int w) (int o0, int o1) dimen = Inr (h', v)
             \<and> base v = base x' \<and> vsizes v = n # w # rest
             \<and> (\<forall>r c k. r < n \<longrightarrow> c < w \<longrightarrow> in_range rest k \<longrightarrow>
                   voffset v + dot (r # c # k) (vstrides v)
                     = voffset x' + dot (stripe_src (o0, o1) dimen r c @ k) (vstrides x')
                   \<and> voffset v + dot (r # c # k) (vstrides v) < length (h' ! base x'))"
proof -
  have sz': "vsizes x' = d0 # d1 # rest" using contiguous_sizes [OF cont] sz by simp
  have wf': "wf_view h' x'" using contiguous_wf [OF cont wf] .
  have off': "voffset x' = 0" using cont off0 by (auto simp: contiguous_def split: if_splits)
  obtain s0 s1 srest where st': "vstrides x' = s0 # s1 # srest" and lsr: "length srest = length rest"
  proof -
    have "length (vstrides x') = Suc (Suc (length rest))" using wf' sz' by (simp add: wf_view_def)
    then obtain s0 s1 srest where "vstrides x' = s0 # s1 # srest" "length srest = length rest"
      by (cases "vstrides x'"; cases "tl (vstrides x')") auto
    then show ?thesis using that by blast
  qed
  define numel where "numel = prod_list rest"
  define stride where "stride = ((d1 + 1) * numel) # ((if dimen = 1 then 1 else d1) * numel) # srest"
  define so where "so = (o0 * d1 + o1) * numel"
  define v where "v = \<lparr>base = base x', voffset = so, vsizes = n # w # rest, vstrides = stride\<rparr>"
  have stride_eq: "(vstrides x')[0 := (d1 + 1) * numel, 1 := (if dimen = 1 then 1 else d1) * numel] = stride"
    by (simp add: st' stride_def)
  have so_eq: "(int o0 * int d1 + int o1) * int numel = int so"
    by (simp add: so_def)
  have addr: "so + dot (r # c # k) stride = dot (stripe_src (o0, o1) dimen r c @ k) (vstrides x')
              \<and> so + dot (r # c # k) stride < length (h' ! base x')"
    if "r < n" "c < w" "in_range rest k" for r c k
  proof -
    have src: "in_range [d0, d1] (stripe_src (o0, o1) dimen r c)"
      using bounds that by (simp add: stripe_bounds_def)
    have nz: "0 \<notin> set (vsizes x)" using pos sz in_range_pos [OF that(3)] by auto
    have ctg: "is_contig (d0 # d1 # rest) (s0 # s1 # srest)"
      using contiguous_result_contig [OF cont nz] sz' st' by simp
    have e: "so + dot (r # c # k) stride = dot (stripe_src (o0, o1) dimen r c @ k) (vstrides x')"
      using stripe_address [OF ctg src, of k] by (simp add: so_def stride_def numel_def st')
    have "in_range (vsizes x') (stripe_src (o0, o1) dimen r c @ k)"
      using src that(3) by (auto simp: sz' stripe_src_def)
    from wf_view_address [OF wf' this] e off' show ?thesis by simp
  qed
  have need: "storage_needed (n # w # rest) stride so \<le> length (h' ! base x')"
  proof (cases "0 \<in> set (n # w # rest)")
    case True then show ?thesis by (simp add: storage_needed_def)
  next
    case False
    then have "0 \<notin> set rest" by simp
    then have m: "in_range rest (map (\<lambda>d. d - 1) rest)" by (rule in_range_max)
    have "n - 1 < n" "w - 1 < w" using False by auto
    from addr [OF this m] False show ?thesis by (simp add: storage_needed_def)
  qed
  have map_rest: "map (nat \<circ> int) rest = rest" by (induction rest) simp_all
  have asd: "as_strided h' x' (int n # int w # map int rest) stride (int so) = Inr v"
    using need lsr by (cases "dimen = 1") (simp_all add: as_strided_def v_def stride_def map_rest)
  have "stripe h x (int n) (int w) (int o0, int o1) dimen =
        (case as_strided h' x' (int n # int w # map int rest)
                ((vstrides x')[0 := (d1 + 1) * numel, 1 := (if dimen = 1 then 1 else d1) * numel])
                ((int o0 * int d1 + int o1) * int numel) of
           Inl e \<Rightarrow> Inl e | Inr v \<Rightarrow> Inr (h', v))"
    using pos by (simp add: stripe_def cont sz sz' Let_def numel_def)
  also have "\<dots> = Inr (h', v)"
    by (simp only: stride_eq so_eq asd sum.case)
  finally have run: "stripe h x (int n) (int w) (int o0, int o1) dimen = Inr (h', v)" .
  have vo: "voffset v = so" "vstrides v = stride" by (simp_all add: v_def)
  have el: "\<forall>r c k. r < n \<longrightarrow> c < w \<longrightarrow> in_range rest k \<longrightarrow>
                   voffset v + dot (r # c # k) (vstrides v)
                     = voffset x' + dot (stripe_src (o0, o1) dimen r c @ k) (vstrides x')
                   \<and> voffset v + dot (r # c # k) (vstrides v) < length (h' ! base x')"
    unfolding vo off' add_0 using addr by blast
  have sel: "base v = base x'" "vsizes v = n # w # rest" by (simp_all add: v_def)
  from run sel el show ?thesis by blast
qed

subsection \<open>Reading and writing through a stripe\<close>

lemma vget_vset_same:
  assumes "base v = base x" and "base x < length h"
    and "voffset v + dot i (vstrides v) = voffset x + dot j (vstrides x)"
    and "voffset v + dot i (vstrides v) < length (h ! base x)"
  shows "vget (vset h v i a) x j = a"
  using assms by (simp add: vget_def vset_def)

lemma vget_vset_other_buffer:
  assumes "base v \<noteq> base x"
  shows "vget (vset h v i a) x j = vget h x j"
  using assms by (simp add: vget_def vset_def)

text \<open>The two examples of the docstring of \<^verbatim>\<open>stripe\<close>.\<close>

lemma stripe_docstring_examples:
  "ebind (stripe ex_heap ex_view 2 3 (1, 1) 1) (\<lambda>(h, v). Inr (materialize h v))
     = Inr \<lparr>shape = [2, 3], elems = [6, 7, 8, 12, 13, 14]\<rparr>"
  "ebind (stripe ex_heap ex_view 2 3 (0, 0) 0) (\<lambda>(h, v). Inr (materialize h v))
     = Inr \<lparr>shape = [2, 3], elems = [0, 5, 10, 6, 11, 16]\<rparr>"
  by (simp_all add: ex_heap_def ex_view_def stripe_def contiguous_def is_contiguous_def
      as_strided_def storage_needed_def ebind_def materialize_def tabulate_def vget_def
      upt_conv_Cons)

text \<open>
  A stripe of a tensor that is not contiguous lives in the new buffer that \<open>contiguous\<close>
  allocated: no write through it reaches the tensor it was taken from.
\<close>

lemma stripe_of_noncontiguous_is_copy:
  assumes "\<not> is_contiguous x" and "wf_view h x" and "stripe h x n w offset dimen = Inr (h', v)"
  shows "base v = length h \<and> base v \<noteq> base x \<and> vget (vset h' v i a) x j = vget h x j"
proof -
  from assms(1,3) have bv: "base v = length h" and h': "h' = h @ [map (vget h x) (indices (vsizes x))]"
    by (auto simp: stripe_def contiguous_def as_strided_def Let_def split: if_splits sum.splits)
  from assms(2) have bx: "base x < length h" by (simp add: wf_view_def)
  with bv have ne: "base v \<noteq> base x" by simp
  have "vget (vset h' v i a) x j = vget h' x j" using ne by (rule vget_vset_other_buffer)
  also have "\<dots> = vget h x j" using bx by (simp add: h' vget_def nth_append)
  finally show ?thesis using bv ne by simp
qed

text \<open>
  Claim C4, as amended. Let \<open>x\<close> be a tensor of at least two dimensions whose first two
  dimensions are not empty and which, if it is contiguous, starts at storage offset zero. For every
  count \<open>n\<close>, width \<open>w\<close>, offset \<open>(o0, o1)\<close> and orientation \<open>dim\<close> in \<open>{0, 1}\<close> such that all
  accessed indices are in bounds, \<open>stripe\<close> returns a view of shape \<open>(n, w, ...)\<close> whose
  element at \<open>(r, c)\<close> is \<open>x[o0 + r, o1 + r + c]\<close> when \<open>dim = 1\<close> and
  \<open>x[o0 + r + c, o1 + r]\<close> when \<open>dim = 0\<close>. When \<open>x\<close> is contiguous no copy is made (the
  heap is unchanged and the view lives in the buffer of \<open>x\<close>), and a write through the view
  at \<open>(r, c)\<close> changes that element of \<open>x\<close>.
\<close>

theorem stripe_elements_and_aliasing:
  assumes wf: "wf_view h x"
    and sz: "vsizes x = d0 # d1 # rest"
    and pos: "0 < d0" "0 < d1"
    and off0: "is_contiguous x \<longrightarrow> voffset x = 0"
    and dm: "dimen = 0 \<or> dimen = 1"
    and bounds: "stripe_bounds d0 d1 n w (o0, o1) dimen"
  shows "\<exists>h' v. stripe h x (int n) (int w) (int o0, int o1) dimen = Inr (h', v)
           \<and> vsizes v = n # w # rest
           \<and> (\<forall>r < n. \<forall>c < w. \<forall>k. in_range rest k \<longrightarrow>
                 vget h' v (r # c # k) = vget h x (stripe_src (o0, o1) dimen r c @ k))
           \<and> (is_contiguous x \<longrightarrow> h' = h \<and> base v = base x
                \<and> (\<forall>r < n. \<forall>c < w. \<forall>k a. in_range rest k \<longrightarrow>
                      vget (vset h v (r # c # k) a) x (stripe_src (o0, o1) dimen r c @ k) = a))"
proof -
  obtain h' x' where cont: "contiguous h x = (h', x')" by (cases "contiguous h x")
  from off0 have off0': "is_contiguous x \<Longrightarrow> voffset x = 0" by simp
  from stripe_ok [OF wf sz pos off0' bounds cont]
  obtain v where run: "stripe h x (int n) (int w) (int o0, int o1) dimen = Inr (h', v)"
    and bv: "base v = base x'" and sv: "vsizes v = n # w # rest"
    and addr: "\<And>r c k. r < n \<Longrightarrow> c < w \<Longrightarrow> in_range rest k \<Longrightarrow>
                voffset v + dot (r # c # k) (vstrides v)
                  = voffset x' + dot (stripe_src (o0, o1) dimen r c @ k) (vstrides x')
                \<and> voffset v + dot (r # c # k) (vstrides v) < length (h' ! base x')"
    by blast
  have src_range: "in_range (vsizes x) (stripe_src (o0, o1) dimen r c @ k)"
    if "r < n" "c < w" "in_range rest k" for r c k
    using bounds that by (auto simp: stripe_bounds_def stripe_src_def sz)
  have rd: "vget h' v (r # c # k) = vget h x (stripe_src (o0, o1) dimen r c @ k)"
    if "r < n" "c < w" "in_range rest k" for r c k
  proof -
    have "vget h' v (r # c # k) = vget h' x' (stripe_src (o0, o1) dimen r c @ k)"
      using addr [OF that] bv by (simp add: vget_def)
    also have "\<dots> = vget h x (stripe_src (o0, o1) dimen r c @ k)"
      using contiguous_vget [OF cont src_range [OF that]] .
    finally show ?thesis .
  qed
  have al: "h' = h \<and> base v = base x
            \<and> (\<forall>r < n. \<forall>c < w. \<forall>k a. in_range rest k \<longrightarrow>
                  vget (vset h v (r # c # k) a) x (stripe_src (o0, o1) dimen r c @ k) = a)"
    if c: "is_contiguous x"
  proof -
    from c cont have eq: "h' = h" "x' = x" by (simp_all add: contiguous_def)
    have bx: "base x < length h" using wf by (simp add: wf_view_def)
    have "vget (vset h v (r # c # k) a) x (stripe_src (o0, o1) dimen r c @ k) = a"
      if "r < n" "c < w" "in_range rest k" for r c k a
      using addr [OF that] bv bx eq by (intro vget_vset_same) simp_all
    with eq bv show ?thesis by simp
  qed
  from run sv rd al show ?thesis by blast
qed

text \<open>
  The theorem at the first example of the docstring: the stripe of two rows of width three at
  offset \<open>(1, 1)\<close> of the 5 x 5 table.
\<close>

theorem stripe_elements_and_aliasing_witness:
  "wf_view ex_heap ex_view \<and> vsizes ex_view = [5, 5] \<and> is_contiguous ex_view
   \<and> voffset ex_view = 0 \<and> stripe_bounds 5 5 2 3 (1, 1) 1
   \<and> (\<exists>h' v. stripe ex_heap ex_view 2 3 (1, 1) 1 = Inr (h', v) \<and> vsizes v = [2, 3]
        \<and> vget h' v [1, 2] = vget ex_heap ex_view [2, 4]
        \<and> h' = ex_heap
        \<and> vget (vset ex_heap v [1, 2] 99) ex_view [2, 4] = 99)"
proof -
  have wf: "wf_view ex_heap ex_view"
    by (simp add: wf_view_def ex_heap_def ex_view_def storage_needed_def)
  have sz: "vsizes ex_view = 5 # 5 # []" by (simp add: ex_view_def)
  have c: "is_contiguous ex_view" by (simp add: is_contiguous_def ex_view_def)
  have o: "voffset ex_view = 0" by (simp add: ex_view_def)
  have b: "stripe_bounds 5 5 2 3 (1, 1) 1"
    by (auto simp: stripe_bounds_def stripe_src_def)
  have "\<exists>h' v. stripe ex_heap ex_view (int 2) (int 3) (int 1, int 1) 1 = Inr (h', v)
          \<and> vsizes v = 2 # 3 # []
          \<and> (\<forall>r < 2. \<forall>c < 3. \<forall>k. in_range [] k \<longrightarrow>
                vget h' v (r # c # k) = vget ex_heap ex_view (stripe_src (1, 1) 1 r c @ k))
          \<and> (is_contiguous ex_view \<longrightarrow> h' = ex_heap \<and> base v = base ex_view
               \<and> (\<forall>r < 2. \<forall>c < 3. \<forall>k a. in_range [] k \<longrightarrow>
                vget (vset ex_heap v (r # c # k) a) ex_view (stripe_src (1, 1) 1 r c @ k) = a))"
    by (rule stripe_elements_and_aliasing [OF wf sz _ _ _ _ b]) (simp_all add: o)
  with c obtain h' v where run: "stripe ex_heap ex_view (int 2) (int 3) (int 1, int 1) 1 = Inr (h', v)"
    and sv: "vsizes v = [2, 3]"
    and e: "\<forall>r < 2. \<forall>c < 3. \<forall>k. in_range [] k \<longrightarrow>
              vget h' v (r # c # k) = vget ex_heap ex_view (stripe_src (1, 1) 1 r c @ k)"
    and hh: "h' = ex_heap"
    and a: "\<forall>r < 2. \<forall>c < 3. \<forall>k a. in_range [] k \<longrightarrow>
              vget (vset ex_heap v (r # c # k) a) ex_view (stripe_src (1, 1) 1 r c @ k) = a"
    by blast
  from e [rule_format, of 1 2 "[]"] have e1: "vget h' v [1, 2] = vget ex_heap ex_view [2, 4]"
    by (simp add: stripe_src_def eval_nat_numeral)
  from a [rule_format, of 1 2 "[]" 99] have a1: "vget (vset ex_heap v [1, 2] 99) ex_view [2, 4] = 99"
    by (simp add: stripe_src_def eval_nat_numeral)
  from run have run': "stripe ex_heap ex_view 2 3 (1, 1) 1 = Inr (h', v)" by simp
  from run' sv e1 hh a1 have "\<exists>h' v. stripe ex_heap ex_view 2 3 (1, 1) 1 = Inr (h', v) \<and> vsizes v = [2, 3]
        \<and> vget h' v [1, 2] = vget ex_heap ex_view [2, 4]
        \<and> h' = ex_heap
        \<and> vget (vset ex_heap v [1, 2] 99) ex_view [2, 4] = 99"
    by blast
  with wf sz c o b show ?thesis by simp
qed

text \<open>
  Claim C4 as stated says that no copy is ever made. On the transposed 2 x 2 table, which is not
  contiguous, \<open>stripe\<close> returns a view into a second buffer; the entry \<open>(0, 0)\<close> of the
  stripe at offset \<open>(0, 1)\<close> stands for \<open>x[0, 1] = 3\<close>, and after writing 99 through the
  view \<open>x[0, 1]\<close> is still 3.
\<close>

theorem stripe_noncontiguous_counterexample:
  "wf_view tr_heap tr_view \<and> \<not> is_contiguous tr_view
   \<and> stripe tr_heap tr_view 1 1 (0, 1) 1
       = Inr ([[1, 2, 3, 4], [1, 3, 2, 4]],
              \<lparr>base = 1, voffset = 1, vsizes = [1, 1], vstrides = [3, 1]\<rparr>)
   \<and> vget tr_heap tr_view [0, 1] = 3
   \<and> vget (vset [[1, 2, 3, 4], [1, 3, 2, 4]]
             \<lparr>base = 1, voffset = 1, vsizes = [1, 1], vstrides = [3, 1]\<rparr> [0, 0] 99)
        tr_view [0, 1] = 3"
  by (simp add: tr_heap_def tr_view_def wf_view_def stripe_def contiguous_def is_contiguous_def
      as_strided_def storage_needed_def vget_def vset_def upt_conv_Cons)

text \<open>
  Claim C10 says that a stripe of a contiguous tensor is a view through which the caller's
  tensor is written. \<open>stripe\<close> passes an absolute storage offset to \<open>as_strided\<close> and
  never adds the storage offset of \<open>x\<close> itself. For the contiguous slice \<open>x = y[1:]\<close> of
  the table \<open>y = [[10, 11], [12, 13]]\<close>, the stripe of one row of width one at offset
  \<open>(0, 0)\<close> therefore shows \<open>y[0, 0] = 10\<close> instead of \<open>x[0, 0] = 12\<close>, and writing 99
  through it changes \<open>y[0, 0]\<close> and leaves every element of \<open>x\<close> as it was.
\<close>

theorem stripe_ignores_storage_offset:
  "wf_view sl_heap sl_view \<and> is_contiguous sl_view
   \<and> stripe sl_heap sl_view 1 1 (0, 0) 1
       = Inr (sl_heap, \<lparr>base = 0, voffset = 0, vsizes = [1, 1], vstrides = [3, 1]\<rparr>)
   \<and> vget sl_heap sl_view [0, 0] = 12
   \<and> vget sl_heap \<lparr>base = 0, voffset = 0, vsizes = [1, 1], vstrides = [3, 1]\<rparr> [0, 0] = 10
   \<and> vset sl_heap \<lparr>base = 0, voffset = 0, vsizes = [1, 1], vstrides = [3, 1]\<rparr> [0, 0] 99
       = [[99, 11, 12, 13]]
   \<and> materialize [[99, 11, 12, 13]] sl_view = materialize sl_heap sl_view"
  by (simp add: sl_heap_def sl_view_def wf_view_def stripe_def contiguous_def is_contiguous_def
      as_strided_def storage_needed_def vget_def vset_def materialize_def tabulate_def upt_conv_Cons)

section \<open>Tensor primitives: shapes and elements\<close>

lemma indices_in_range: "idx \<in> set (indices sh) \<Longrightarrow> in_range sh idx"
  by (induction sh arbitrary: idx) auto

lemma tabulate_cong:
  "(\<And>idx. in_range sh idx \<Longrightarrow> f idx = g idx) \<Longrightarrow> tabulate sh f = tabulate sh g"
  by (simp add: tabulate_def indices_in_range)

lemma storage_needed_cstrides: "storage_needed sz (cstrides sz) 0 \<le> prod_list sz"
proof (cases "0 \<in> set sz")
  case True then show ?thesis by (simp add: storage_needed_def)
next
  case False
  then have "in_range sz (map (\<lambda>d. d - 1) sz)" by (rule in_range_max)
  from flat_index_less [OF this] False show ?thesis
    by (simp add: storage_needed_def dot_cstrides)
qed

lemma wf_view_of: "wf_tensor t \<Longrightarrow> wf_view [elems t] (view_of t)"
  using storage_needed_cstrides [of "shape t"]
  by (simp add: wf_view_def view_of_def wf_tensor_def)

lemma contiguous_view_of: "contiguous h (view_of t) = (h, view_of t)"
  by (simp add: contiguous_def is_contiguous_def view_of_def)

lemma stripe_t_eq:
  assumes wf: "wf_tensor t"
    and sz: "shape t = d0 # d1 # rest"
    and pos: "0 < d0" "0 < d1"
    and bounds: "stripe_bounds d0 d1 n w (o0, o1) dimen"
  shows "stripe_t t n w (o0, o1) dimen
         = Inr (tabulate (n # w # rest)
                  (\<lambda>idx. tget t (stripe_src (o0, o1) dimen (idx ! 0) (idx ! 1) @ drop 2 idx)))"
proof -
  have sz': "vsizes (view_of t) = d0 # d1 # rest" by (simp add: view_of_def sz)
  have off: "is_contiguous (view_of t) \<Longrightarrow> voffset (view_of t) = 0" by (simp add: view_of_def)
  from stripe_ok [OF wf_view_of [OF wf] sz' pos off bounds contiguous_view_of]
  obtain v where run: "stripe [elems t] (view_of t) (int n) (int w) (int o0, int o1) dimen
                        = Inr ([elems t], v)"
    and sv: "vsizes v = n # w # rest" and bv: "base v = base (view_of t)"
    and addr: "\<And>r c k. r < n \<Longrightarrow> c < w \<Longrightarrow> in_range rest k \<Longrightarrow>
                voffset v + dot (r # c # k) (vstrides v)
                  = voffset (view_of t) + dot (stripe_src (o0, o1) dimen r c @ k) (vstrides (view_of t))"
    by blast
  have "vget [elems t] v idx = tget t (stripe_src (o0, o1) dimen (idx ! 0) (idx ! 1) @ drop 2 idx)"
    if "in_range (n # w # rest) idx" for idx
  proof -
    from that obtain r c k where idx: "idx = r # c # k" and r: "r < n" "c < w" "in_range rest k"
      by (cases idx; cases "tl idx") auto
    have len: "length (stripe_src (o0, o1) dimen r c @ k) = length (shape t)"
      using in_range_length [OF r(3)] by (simp add: stripe_src_def sz)
    show ?thesis
      using addr [OF r] bv
      by (simp add: idx vget_def tget_def view_of_def dot_cstrides [OF len])
  qed
  then have "materialize [elems t] v
             = tabulate (n # w # rest)
                 (\<lambda>idx. tget t (stripe_src (o0, o1) dimen (idx ! 0) (idx ! 1) @ drop 2 idx))"
    unfolding materialize_def sv by (rule tabulate_cong)
  with run show ?thesis by (simp add: stripe_t_def)
qed

lemma shape_permute [simp]: "shape (permute t perm) = map (\<lambda>p. shape t ! p) perm"
  by (simp add: permute_def)

lemma shape_full_like [simp]: "shape (full_like t a) = shape t"
  by (simp add: full_like_def)

lemma shape_tadd [simp]: "shape (tadd a b) = shape a"
  by (simp add: tadd_def)

lemma shape_logsumexp [simp]: "shape (logsumexp t) = butlast (shape t)"
  by (simp add: logsumexp_def)

lemma shape_diagonal_copy [simp]: "shape (diagonal_copy t k src) = shape t"
  by (simp add: diagonal_copy_def)

lemma shape_diagonal_fill [simp]: "shape (diagonal_fill t k a) = shape t"
  by (simp add: diagonal_fill_def)

lemma shape_root_fill [simp]: "shape (root_fill s w lens) = shape s"
  by (simp add: root_fill_def)

lemma wf_permute [simp]: "wf_tensor (permute t perm)" by (simp add: permute_def)
lemma wf_full_like [simp]: "wf_tensor (full_like t a)" by (simp add: full_like_def)
lemma wf_tadd [simp]: "wf_tensor (tadd a b)" by (simp add: tadd_def)
lemma wf_logsumexp [simp]: "wf_tensor (logsumexp t)" by (simp add: logsumexp_def)
lemma wf_diagonal_copy [simp]: "wf_tensor (diagonal_copy t k src)" by (simp add: diagonal_copy_def)
lemma wf_diagonal_fill [simp]: "wf_tensor (diagonal_fill t k a)" by (simp add: diagonal_fill_def)
lemma wf_root_fill [simp]: "wf_tensor (root_fill s w lens)" by (simp add: root_fill_def)

lemma tget_permute_201:
  assumes "shape t = [n, w, B]" and "b < B" and "r < n" and "c < w"
  shows "tget (permute t [2, 0, 1]) [b, r, c] = tget t [r, c, b]"
  using assms by (simp add: permute_def tget_tabulate pos_of_def upt_conv_Cons)

lemma tget_permute_210:
  assumes "shape t = [d0, d1, d2]" and "i < d2" and "j < d1" and "k < d0"
  shows "tget (permute t [2, 1, 0]) [i, j, k] = tget t [k, j, i]"
  using assms by (simp add: permute_def tget_tabulate pos_of_def upt_conv_Cons)


lemma tget_tadd: "in_range (shape a) idx \<Longrightarrow> tget (tadd a b) idx = fadd (tget a idx) (tget b idx)"
  by (simp add: tadd_def tget_tabulate)

lemma tget_logsumexp:
  assumes "shape t = [B, n, w]" and "b < B" and "r < n"
  shows "tget (logsumexp t) [b, r] = lse (map (\<lambda>c. tget t [b, r, c]) [0..<w])"
  using assms by (simp add: logsumexp_def tget_tabulate)

lemma tget_diagonal:
  assumes "shape t = [d0, d1, B]" and "b < B" and "p < diag_len d0 d1 k"
  shows "tget (diagonal t k) [b, p] = tget t (diag_index k p @ [b])"
  using assms by (simp add: diagonal_def tget_tabulate)

lemma tget_diagonal_copy:
  assumes "shape t = [d0, d1, B]" and "i < d0" and "j < d1" and "b < B"
  shows "tget (diagonal_copy t k src) [i, j, b]
         = (if int j - int i = k then tget src [b, min i j] else tget t [i, j, b])"
  using assms by (simp add: diagonal_copy_def tget_tabulate on_diag_def)

lemma tget_diagonal_fill:
  assumes "shape t = [d0, d1, B]" and "i < d0" and "j < d1" and "b < B"
  shows "tget (diagonal_fill t k a) [i, j, b]
         = (if int j - int i = k then a else tget t [i, j, b])"
  using assms by (simp add: diagonal_fill_def tget_tabulate on_diag_def)


lemma tget_root_fill:
  assumes "shape s = [d0, d1, B]" and "i < d0" and "j < d1" and "b < B"
  shows "tget (root_fill s w lens) [i, j, b]
         = (if i = 0 \<and> j = w \<and> lens ! b \<noteq> w then NInf else tget s [i, j, b])"
  using assms by (simp add: root_fill_def tget_tabulate)

section \<open>First-order dependency CRF\<close>

subsection \<open>One iteration of the loop\<close>

lemma upt_shift: "map f [i..<i + w] = map (\<lambda>c. f (i + c)) [0..<w]"
proof -
  have "[i..<i + w] = map (\<lambda>c. c + i) [0..<w]" by (simp add: map_add_upt add.commute)
  then show ?thesis by (simp add: comp_def add.commute)
qed

text \<open>The reduction of the sum of two stripes along the width.\<close>

lemma tget_reduce:
  assumes sh: "shape a = [n, w, B]" and "b < B" and "r < n"
  shows "tget (logsumexp (permute (tadd a a') [2, 0, 1])) [b, r]
         = lse (map (\<lambda>c. fadd (tget a [r, c, b]) (tget a' [r, c, b])) [0..<w])"
proof -
  let ?t = "tadd a a'"
  have sht: "shape ?t = [n, w, B]" using sh by simp
  have el: "tget (permute ?t [2, 0, 1]) [b, r, c] = fadd (tget a [r, c, b]) (tget a' [r, c, b])"
    if "c < w" for c
  proof -
    have "tget (permute ?t [2, 0, 1]) [b, r, c] = tget ?t [r, c, b]"
      using assms that by (intro tget_permute_201 [OF sht])
    then show ?thesis using assms that by (simp add: tget_tadd)
  qed
  have eq: "map (\<lambda>c. tget (permute ?t [2, 0, 1]) [b, r, c]) [0..<w]
             = map (\<lambda>c. fadd (tget a [r, c, b]) (tget a' [r, c, b])) [0..<w]"
    by (rule map_cong [OF refl]) (use el in auto)
  have shp: "shape (permute ?t [2, 0, 1]) = [B, n, w]" using sh by simp
  show ?thesis by (simp only: tget_logsumexp [OF shp assms(2,3)] eq)
qed

lemma stripe_t_tget:
  assumes "stripe_t t n w off dimen
           = Inr (tabulate (n # w # rest)
                   (\<lambda>idx. tget t (stripe_src off dimen (idx ! 0) (idx ! 1) @ drop 2 idx)))"
    and "stripe_t t n w off dimen = Inr a"
  shows "shape a = n # w # rest"
    and "r < n \<Longrightarrow> c < w \<Longrightarrow> in_range rest k
         \<Longrightarrow> tget a (r # c # k) = tget t (stripe_src off dimen r c @ k)"
  using assms by (auto simp: tget_tabulate)

lemma shape_reduce:
  "shape (logsumexp (permute (tadd (tabulate [n, w, B] f) g) [2, 0, 1])) = [B, n]"
  by simp

lemma stripe_bounds_inside:
  assumes "0 < w" and "w < L"
  shows "stripe_bounds L L (L - w) w (0, 0) 1"
    and "stripe_bounds L L (L - w) w (w, 1) 1"
    and "stripe_bounds L L (L - w) w (0, 0) 0"
    and "stripe_bounds L L (L - w) w (w, 0) 1"
    and "stripe_bounds L L (L - w) w (0, 1) 1"
    and "stripe_bounds L L (L - w) w (1, w) 0"
  using assms by (auto simp: stripe_bounds_def stripe_src_def)

lemma inside_step_run:
  assumes si: "shape s_i = [L, L, B]" "wf_tensor s_i"
    and sc: "shape s_c = [L, L, B]" "wf_tensor s_c"
    and ss: "shape scores = [L, L, B]"
    and w: "0 < w" "w < L"
  shows "\<exists>s_i' s_c'. inside_step scores lens L True w (s_i, s_c) = Inr (s_i', s_c')
     \<and> shape s_i' = [L, L, B] \<and> wf_tensor s_i' \<and> shape s_c' = [L, L, B] \<and> wf_tensor s_c'
     \<and> (\<forall>i j b. i < L \<longrightarrow> j < L \<longrightarrow> b < B \<longrightarrow>
           tget s_i' [i, j, b]
             = (if j = i + w then fadd (arc_sum s_c i j b) (tget scores [i, j, b])
                else if i = j + w then fadd (arc_sum s_c j i b) (tget scores [i, j, b])
                else tget s_i [i, j, b]))
     \<and> (\<forall>i j b. i < L \<longrightarrow> j < L \<longrightarrow> b < B \<longrightarrow>
           tget s_c' [i, j, b]
             = (if j = i + w then (if i = 0 \<and> lens ! b \<noteq> w then NInf else right_sum s_i' s_c i j b)
                else if i = j + w then left_sum s_i' s_c j i b
                else tget s_c [i, j, b]))"
proof -
  define n where "n = L - w"
  have L: "0 < L" using w by simp
  note bd = stripe_bounds_inside [OF w, folded n_def]
  obtain A1 where e1: "stripe_t s_c n w (0, 0) 1 = Inr A1"
    using stripe_t_eq [OF sc(2) sc(1) L L bd(1)] by blast
  obtain A2 where e2: "stripe_t s_c n w (w, 1) 1 = Inr A2"
    using stripe_t_eq [OF sc(2) sc(1) L L bd(2)] by blast
  note a1 = stripe_t_tget [OF stripe_t_eq [OF sc(2) sc(1) L L bd(1)] e1]
  note a2 = stripe_t_tget [OF stripe_t_eq [OF sc(2) sc(1) L L bd(2)] e2]
  define il where "il = logsumexp (permute (tadd A1 A2) [2, 0, 1])"
  define si1 where "si1 = diagonal_copy s_i (- int w) (tadd il (diagonal scores (- int w)))"
  define si2 where "si2 = diagonal_copy si1 (int w) (tadd il (diagonal scores (int w)))"
  have sh1: "shape si1 = [L, L, B]" using si by (simp add: si1_def)
  have si2: "shape si2 = [L, L, B]" "wf_tensor si2" using sh1 by (simp_all add: si2_def)
  obtain A3 where e3: "stripe_t s_c n w (0, 0) 0 = Inr A3"
    using stripe_t_eq [OF sc(2) sc(1) L L bd(3)] by blast
  obtain A4 where e4: "stripe_t si2 n w (w, 0) 1 = Inr A4"
    using stripe_t_eq [OF si2(2) si2(1) L L bd(4)] by blast
  note a3 = stripe_t_tget [OF stripe_t_eq [OF sc(2) sc(1) L L bd(3)] e3]
  note a4 = stripe_t_tget [OF stripe_t_eq [OF si2(2) si2(1) L L bd(4)] e4]
  define cl where "cl = logsumexp (permute (tadd A3 A4) [2, 0, 1])"
  define sc1 where "sc1 = diagonal_copy s_c (- int w) cl"
  have sc1: "shape sc1 = [L, L, B]" "wf_tensor sc1" using sc by (simp_all add: sc1_def)
  obtain A5 where e5: "stripe_t si2 n w (0, 1) 1 = Inr A5"
    using stripe_t_eq [OF si2(2) si2(1) L L bd(5)] by blast
  obtain A6 where e6: "stripe_t sc1 n w (1, w) 0 = Inr A6"
    using stripe_t_eq [OF sc1(2) sc1(1) L L bd(6)] by blast
  note a5 = stripe_t_tget [OF stripe_t_eq [OF si2(2) si2(1) L L bd(5)] e5]
  note a6 = stripe_t_tget [OF stripe_t_eq [OF sc1(2) sc1(1) L L bd(6)] e6]
  define cr where "cr = logsumexp (permute (tadd A5 A6) [2, 0, 1])"
  define sc2 where "sc2 = diagonal_copy sc1 (int w) cr"
  define sc3 where "sc3 = root_fill sc2 w lens"
  have sh2: "shape sc2 = [L, L, B]" using sc1 by (simp add: sc2_def)
  have sc3: "shape sc3 = [L, L, B]" "wf_tensor sc3" using sh2 by (simp_all add: sc3_def)
  have run: "inside_step scores lens L True w (s_i, s_c) = Inr (si2, sc3)"
    unfolding inside_step_def
    by (simp only: Let_def prod.case n_def [symmetric] e1 e2 e3 e4 e5 e6 ebind_def
        register_hook_def sum.case if_True il_def [symmetric] si1_def [symmetric]
        si2_def [symmetric] cl_def [symmetric] sc1_def [symmetric] cr_def [symmetric]
        sc2_def [symmetric] sc3_def [symmetric])
  have rng: "in_range [B] [b] = (b < B)" for b by simp
  have ilv: "tget il [b, r] = arc_sum s_c r (r + w) b" if "b < B" "r < n" for b r
  proof -
    have "tget il [b, r] = lse (map (\<lambda>c. fadd (tget A1 [r, c, b]) (tget A2 [r, c, b])) [0..<w])"
      unfolding il_def using a1(1) that by (rule tget_reduce)
    also have "map (\<lambda>c. fadd (tget A1 [r, c, b]) (tget A2 [r, c, b])) [0..<w]
             = map (\<lambda>c. fadd (tget s_c [r, r + c, b]) (tget s_c [r + w, r + c + 1, b])) [0..<w]"
      by (rule map_cong [OF refl]) (use that in \<open>simp add: a1(2) a2(2) stripe_src_def add_ac\<close>)
    finally show ?thesis by (simp add: arc_sum_def upt_shift)
  qed
  have dl: "diag_len L L (int w) = n" "diag_len L L (- int w) = n"
    using w by (simp_all add: diag_len_def n_def)
  have si_val: "tget si2 [i, j, b]
             = (if j = i + w then fadd (arc_sum s_c i j b) (tget scores [i, j, b])
                else if i = j + w then fadd (arc_sum s_c j i b) (tget scores [i, j, b])
                else tget s_i [i, j, b])"
    if "i < L" "j < L" "b < B" for i j b
  proof -
    have shil: "shape il = [B, n]" using a1(1) by (simp add: il_def)
    consider (up) "j = i + w" | (lo) "i = j + w" | (other) "j \<noteq> i + w" "i \<noteq> j + w" by blast
    then show ?thesis
    proof cases
      case up
      then have r: "i < n" using that by (simp add: n_def)
      have "tget si2 [i, j, b] = tget (tadd il (diagonal scores (int w))) [b, i]"
        unfolding si2_def using up that by (simp add: tget_diagonal_copy [OF sh1])
      also have "\<dots> = fadd (tget il [b, i]) (tget (diagonal scores (int w)) [b, i])"
        using that r by (simp add: tget_tadd shil)
      also have "\<dots> = fadd (arc_sum s_c i j b) (tget scores [i, j, b])"
        using that r up w by (simp add: ilv tget_diagonal [OF ss] dl diag_index_def)
      finally show ?thesis using up by simp
    next
      case lo
      then have r: "j < n" using that by (simp add: n_def)
      have ne: "int j - int i \<noteq> int w" using lo w by simp
      have "tget si2 [i, j, b] = tget si1 [i, j, b]"
        unfolding si2_def using ne that by (simp add: tget_diagonal_copy [OF sh1])
      also have "\<dots> = tget (tadd il (diagonal scores (- int w))) [b, j]"
        unfolding si1_def using lo that by (simp add: tget_diagonal_copy [OF si(1)])
      also have "\<dots> = fadd (tget il [b, j]) (tget (diagonal scores (- int w)) [b, j])"
        using that r by (simp add: tget_tadd shil)
      also have "\<dots> = fadd (arc_sum s_c j i b) (tget scores [i, j, b])"
        using that r lo w by (simp add: ilv tget_diagonal [OF ss] dl diag_index_def add.commute)
      finally show ?thesis using lo w by simp
    next
      case other
      then have ne: "int j - int i \<noteq> int w" "int j - int i \<noteq> - int w" by auto
      have "tget si2 [i, j, b] = tget si1 [i, j, b]"
        unfolding si2_def using ne that by (simp add: tget_diagonal_copy [OF sh1])
      also have "\<dots> = tget s_i [i, j, b]"
        unfolding si1_def using ne that by (simp add: tget_diagonal_copy [OF si(1)])
      finally show ?thesis using other by simp
    qed
  qed
  have clv: "tget cl [b, r] = left_sum si2 s_c r (r + w) b"
    if "b < B" "r < n" for b r
  proof -
    have "tget cl [b, r]
          = lse (map (\<lambda>c. fadd (tget A3 [r, c, b]) (tget A4 [r, c, b])) [0..<w])"
      unfolding cl_def using a3(1) that by (rule tget_reduce)
    also have "map (\<lambda>c. fadd (tget A3 [r, c, b]) (tget A4 [r, c, b])) [0..<w]
             = map (\<lambda>c. fadd (tget s_c [r + c, r, b]) (tget si2 [r + w, r + c, b])) [0..<w]"
      by (rule map_cong [OF refl]) (use that in \<open>simp add: a3(2) a4(2) stripe_src_def add_ac\<close>)
    finally show ?thesis by (simp add: left_sum_def upt_shift)
  qed
  have sc1_val: "tget sc1 [i, j, b]
             = (if i = j + w then left_sum si2 s_c j i b else tget s_c [i, j, b])"
    if "i < L" "j < L" "b < B" for i j b
  proof (cases "i = j + w")
    case True
    then have r: "j < n" using that by (simp add: n_def)
    show ?thesis unfolding sc1_def using True that r
      by (simp add: tget_diagonal_copy [OF sc(1)] clv add.commute)
  next
    case False
    then have "int j - int i \<noteq> - int w" by auto
    with False that show ?thesis unfolding sc1_def by (simp add: tget_diagonal_copy [OF sc(1)])
  qed
  have crv: "tget cr [b, r] = right_sum si2 s_c r (r + w) b"
    if "b < B" "r < n" for b r
  proof -
    have "tget cr [b, r]
          = lse (map (\<lambda>c. fadd (tget A5 [r, c, b]) (tget A6 [r, c, b])) [0..<w])"
      unfolding cr_def using a5(1) that by (rule tget_reduce)
    also have "map (\<lambda>c. fadd (tget A5 [r, c, b]) (tget A6 [r, c, b])) [0..<w]
             = map (\<lambda>c. fadd (tget si2 [r, r + 1 + c, b]) (tget s_c [r + 1 + c, r + w, b])) [0..<w]"
    proof (rule map_cong [OF refl])
      fix c assume "c \<in> set [0..<w]"
      then have c: "c < w" by simp
      have "tget sc1 [r + 1 + c, r + w, b] = tget s_c [r + 1 + c, r + w, b]"
        using c that by (subst sc1_val) (auto simp: n_def)
      then show "fadd (tget A5 [r, c, b]) (tget A6 [r, c, b])
                 = fadd (tget si2 [r, r + 1 + c, b]) (tget s_c [r + 1 + c, r + w, b])"
        using c that by (simp add: a5(2) a6(2) stripe_src_def add_ac)
    qed
    also have "lse \<dots> = right_sum si2 s_c r (r + w) b"
      using upt_shift [of "\<lambda>k. fadd (tget si2 [r, k, b]) (tget s_c [k, r + w, b])" "r + 1" w]
      by (simp add: right_sum_def add_ac)
    finally show ?thesis .
  qed
  have sc2_val: "tget sc2 [i, j, b]
        = (if j = i + w then right_sum si2 s_c i j b else tget sc1 [i, j, b])"
    if "i < L" "j < L" "b < B" for i j b
  proof (cases "j = i + w")
    case True
    then have r: "i < n" using that by (simp add: n_def)
    show ?thesis unfolding sc2_def using True that r
      by (simp add: tget_diagonal_copy [OF sc1(1)] crv)
  next
    case False
    then have "int j - int i \<noteq> int w" by auto
    with False that show ?thesis unfolding sc2_def by (simp add: tget_diagonal_copy [OF sc1(1)])
  qed
  have sc_val: "tget sc3 [i, j, b]
             = (if j = i + w then (if i = 0 \<and> lens ! b \<noteq> w then NInf else right_sum si2 s_c i j b)
                else if i = j + w then left_sum si2 s_c j i b
                else tget s_c [i, j, b])"
    if "i < L" "j < L" "b < B" for i j b
  proof -
    have "tget sc3 [i, j, b] = (if i = 0 \<and> j = w \<and> lens ! b \<noteq> w then NInf else tget sc2 [i, j, b])"
      unfolding sc3_def using that by (simp add: tget_root_fill [OF sh2])
    then show ?thesis using that w by (auto simp: sc2_val sc1_val)
  qed
  from run si2 sc3 si_val sc_val show ?thesis by blast
qed

subsection \<open>The loop invariant\<close>

lemma band_eqD:
  "band_eq L B k t t' \<Longrightarrow> i < L \<Longrightarrow> j < L \<Longrightarrow> b < B \<Longrightarrow> i < j + k \<Longrightarrow> j < i + k
   \<Longrightarrow> tget t' [i, j, b] = tget t [i, j, b]"
  by (simp add: band_eq_def)

lemma band_eq_mono: "band_eq L B k t t' \<Longrightarrow> k' \<le> k \<Longrightarrow> band_eq L B k' t t'"
  by (auto simp: band_eq_def)

lemma arc_sum_cong:
  assumes "band_eq L B (j - i) t t'" and "i < j" and "j < L" and "b < B"
  shows "arc_sum t' i j b = arc_sum t i j b"
proof -
  have "fadd (tget t' [i, r, b]) (tget t' [j, r + 1, b]) = fadd (tget t [i, r, b]) (tget t [j, r + 1, b])"
    if "r \<in> set [i..<j]" for r
  proof -
    from that have r: "i \<le> r" "r < j" by simp_all
    have "tget t' [i, r, b] = tget t [i, r, b]"
      using r assms by (intro band_eqD [OF assms(1)]) simp_all
    moreover have "tget t' [j, r + 1, b] = tget t [j, r + 1, b]"
      using r assms by (intro band_eqD [OF assms(1)]) simp_all
    ultimately show ?thesis by simp
  qed
  then show ?thesis unfolding arc_sum_def by (intro arg_cong [of _ _ lse] map_cong refl)
qed

lemma left_sum_cong:
  assumes "band_eq L B (j - i) t t'" and "band_eq L B (Suc (j - i)) u u'"
    and "i < j" and "j < L" and "b < B"
  shows "left_sum u' t' i j b = left_sum u t i j b"
proof -
  have "fadd (tget t' [r, i, b]) (tget u' [j, r, b]) = fadd (tget t [r, i, b]) (tget u [j, r, b])"
    if "r \<in> set [i..<j]" for r
  proof -
    from that have r: "i \<le> r" "r < j" by simp_all
    have "tget t' [r, i, b] = tget t [r, i, b]"
      using r assms by (intro band_eqD [OF assms(1)]) simp_all
    moreover have "tget u' [j, r, b] = tget u [j, r, b]"
      using r assms by (intro band_eqD [OF assms(2)]) simp_all
    ultimately show ?thesis by simp
  qed
  then show ?thesis unfolding left_sum_def by (intro arg_cong [of _ _ lse] map_cong refl)
qed

lemma right_sum_cong:
  assumes "band_eq L B (j - i) t t'" and "band_eq L B (Suc (j - i)) u u'"
    and "i < j" and "j < L" and "b < B"
  shows "right_sum u' t' i j b = right_sum u t i j b"
proof -
  have "fadd (tget u' [i, r, b]) (tget t' [r, j, b]) = fadd (tget u [i, r, b]) (tget t [r, j, b])"
    if "r \<in> set [i + 1..<j + 1]" for r
  proof -
    from that have r: "i < r" "r \<le> j" by auto
    have "tget t' [r, j, b] = tget t [r, j, b]"
      using r assms by (intro band_eqD [OF assms(1)]) simp_all
    moreover have "tget u' [i, r, b] = tget u [i, r, b]"
      using r assms by (intro band_eqD [OF assms(2)]) simp_all
    ultimately show ?thesis by simp
  qed
  then show ?thesis unfolding right_sum_def by (intro arg_cong [of _ _ lse] map_cong refl)
qed

lemma dep_recurrence_cong:
  assumes ti: "band_eq L B (Suc w) s_i s_i'" and tc: "band_eq L B (Suc w) s_c s_c'"
    and w: "0 < w" "i + w < L" "b < B"
  shows "dep_recurrence scores lens s_i' s_c' w i b = dep_recurrence scores lens s_i s_c w i b"
proof -
  have tcw: "band_eq L B (i + w - i) s_c s_c'" using tc by (rule band_eq_mono) simp
  have tiw: "band_eq L B (Suc (i + w - i)) s_i s_i'" using ti by simp
  have lt: "i < i + w" using w by simp
  note a = arc_sum_cong [OF tcw lt w(2,3)]
  note l = left_sum_cong [OF tcw tiw lt w(2,3)]
  note r = right_sum_cong [OF tcw tiw lt w(2,3)]
  have e: "tget s_i' [i + w, i, b] = tget s_i [i + w, i, b]"
          "tget s_i' [i, i + w, b] = tget s_i [i, i + w, b]"
          "tget s_c' [i + w, i, b] = tget s_c [i + w, i, b]"
          "tget s_c' [i, i + w, b] = tget s_c [i, i + w, b]"
    using w by (auto intro!: band_eqD [OF ti] band_eqD [OF tc])
  show ?thesis unfolding dep_recurrence_def Let_def by (simp only: a l r e)
qed

lemma dep_inv_step:
  assumes inv: "dep_inv scores lens L B k st" and ss: "shape scores = [L, L, B]"
    and k: "0 < k" "k < L"
  shows "\<exists>st'. inside_step scores lens L True k st = Inr st' \<and> dep_inv scores lens L B (Suc k) st'"
proof -
  obtain s_i s_c where st: "st = (s_i, s_c)" by (cases st)
  from inv st have si: "shape s_i = [L, L, B]" "wf_tensor s_i"
    and sc: "shape s_c = [L, L, B]" "wf_tensor s_c"
    and dg: "\<And>i b. i < L \<Longrightarrow> b < B \<Longrightarrow> tget s_c [i, i, b] = Fin 0"
    and rc: "\<And>w i b. 0 < w \<Longrightarrow> w < k \<Longrightarrow> i + w < L \<Longrightarrow> b < B
               \<Longrightarrow> dep_recurrence scores lens s_i s_c w i b"
    by (auto simp: dep_inv_def)
  from inside_step_run [OF si sc ss k, of lens]
  obtain s_i' s_c' where run: "inside_step scores lens L True k (s_i, s_c) = Inr (s_i', s_c')"
    and si': "shape s_i' = [L, L, B]" "wf_tensor s_i'"
    and sc': "shape s_c' = [L, L, B]" "wf_tensor s_c'"
    and vi: "\<And>i j b. i < L \<Longrightarrow> j < L \<Longrightarrow> b < B \<Longrightarrow>
           tget s_i' [i, j, b]
             = (if j = i + k then fadd (arc_sum s_c i j b) (tget scores [i, j, b])
                else if i = j + k then fadd (arc_sum s_c j i b) (tget scores [i, j, b])
                else tget s_i [i, j, b])"
    and vc: "\<And>i j b. i < L \<Longrightarrow> j < L \<Longrightarrow> b < B \<Longrightarrow>
           tget s_c' [i, j, b]
             = (if j = i + k then (if i = 0 \<and> lens ! b \<noteq> k then NInf else right_sum s_i' s_c i j b)
                else if i = j + k then left_sum s_i' s_c j i b
                else tget s_c [i, j, b])"
    by blast
  have bi: "band_eq L B k s_i s_i'" by (auto simp: band_eq_def vi)
  have bc: "band_eq L B k s_c s_c'" by (auto simp: band_eq_def vc)
  have dg': "tget s_c' [i, i, b] = Fin 0" if "i < L" "b < B" for i b
    using that k by (simp add: vc dg)
  have rc': "dep_recurrence scores lens s_i' s_c' w i b"
    if w: "0 < w" "w < Suc k" "i + w < L" "b < B" for w i b
  proof (cases "w = k")
    case False
    with w have wk: "w < k" by simp
    have sw: "Suc w \<le> k" using wk by simp
    have "dep_recurrence scores lens s_i' s_c' w i b = dep_recurrence scores lens s_i s_c w i b"
      by (rule dep_recurrence_cong [OF band_eq_mono [OF bi sw] band_eq_mono [OF bc sw] w(1,3,4)])
    with rc [OF w(1) wk w(3,4)] show ?thesis by simp
  next
    case True
    have lt: "i < i + k" using k by simp
    have jl: "i + k < L" using w True by simp
    have bc0: "band_eq L B (i + k - i) s_c s_c'" using bc by simp
    have bii: "band_eq L B (Suc (i + k - i)) s_i' s_i'" by (simp add: band_eq_def)
    have a: "arc_sum s_c' i (i + k) b = arc_sum s_c i (i + k) b"
      by (rule arc_sum_cong [OF bc0 lt jl w(4)])
    have l: "left_sum s_i' s_c' i (i + k) b = left_sum s_i' s_c i (i + k) b"
      by (rule left_sum_cong [OF bc0 bii lt jl w(4)])
    have r: "right_sum s_i' s_c' i (i + k) b = right_sum s_i' s_c i (i + k) b"
      by (rule right_sum_cong [OF bc0 bii lt jl w(4)])
    have il: "i < L" using jl by simp
    show ?thesis
      unfolding dep_recurrence_def Let_def True a l r
      using k by (simp add: vi [OF jl il w(4)] vi [OF il jl w(4)] vc [OF jl il w(4)] vc [OF il jl w(4)])
  qed
  from run si' sc' dg' rc' show ?thesis by (auto simp: dep_inv_def st)
qed

lemma dep_inv_loop:
  assumes ss: "shape scores = [L, L, B]"
  shows "0 < k \<Longrightarrow> k \<le> L \<Longrightarrow> dep_inv scores lens L B k st
         \<Longrightarrow> \<exists>st'. for_each (inside_step scores lens L True) [k..<L] st = Inr st'
               \<and> dep_inv scores lens L B L st'"
proof (induction "L - k" arbitrary: k st)
  case 0
  then have "k = L" by simp
  with 0 show ?case by simp
next
  case (Suc d)
  then have kL: "k < L" by simp
  from dep_inv_step [OF Suc.prems(3) ss Suc.prems(1) kL]
  obtain st1 where s1: "inside_step scores lens L True k st = Inr st1"
    and i1: "dep_inv scores lens L B (Suc k) st1" by blast
  have "d = L - Suc k" using Suc.hyps(2) by simp
  from Suc.hyps(1) [OF this _ _ i1] kL
  obtain st' where "for_each (inside_step scores lens L True) [Suc k..<L] st1 = Inr st'"
    and "dep_inv scores lens L B L st'" by auto
  with s1 kL show ?case by (simp add: upt_conv_Cons ebind_def)
qed

subsection \<open>The candidate restriction and the whole inside pass\<close>

lemma tget_index_fill:
  "in_range (shape t) idx \<Longrightarrow> tget (index_fill t d i a) idx = (if idx ! d = i then a else tget t idx)"
  by (simp add: index_fill_def tget_tabulate)

lemma shape_index_fill [simp]: "shape (index_fill t d i a) = shape t"
  by (simp add: index_fill_def)

lemma shape_masked_fill [simp]: "shape (masked_fill t m a) = shape t"
  by (simp add: masked_fill_def)

lemma shape_tand [simp]: "shape (tand a b) = shape a"
  by (simp add: tand_def)

lemma shape_tnot [simp]: "shape (tnot a) = shape a"
  by (simp add: tnot_def)

lemma tget_masked_fill:
  "in_range (shape t) idx \<Longrightarrow> tget (masked_fill t m a) idx = (if tget m idx then a else tget t idx)"
  by (simp add: masked_fill_def tget_tabulate)

lemma tget_tand:
  "in_range (shape a) idx \<Longrightarrow> tget (tand a b) idx = (tget a idx \<and> tget b idx)"
  by (simp add: tand_def tget_tabulate)

lemma tget_tnot: "in_range (shape a) idx \<Longrightarrow> tget (tnot a) idx = (\<not> tget a idx)"
  by (simp add: tnot_def tget_tabulate)

lemma apply_cands_run:
  assumes ss: "shape scores = [B, L, L]" and sm: "shape msk = [B, L]" and scd: "shape c = [B, L]"
    and L: "0 < L"
  shows "\<exists>sp. apply_cands (permute scores [2, 1, 0]) msk c = Inr sp \<and> shape sp = [L, L, B]
           \<and> (\<forall>h d b. h < L \<longrightarrow> d < L \<longrightarrow> b < B \<longrightarrow>
                 tget sp [h, d, b] = arc_score scores msk (Some c) h d b)"
proof -
  define m1 where "m1 = index_fill msk 1 0 True"
  define m2 where "m2 = tabulate [B, L, L] (\<lambda>idx. tget m1 [idx ! 0, idx ! 2] \<and> tget m1 [idx ! 0, idx ! 1])"
  define m3 where "m3 = permute m2 [2, 1, 0]"
  define c1 where "c1 = index_fill c 1 0 (- 1)"
  define c2 where "c2 = tabulate [B, L, L]
                     (\<lambda>idx. tget c1 [idx ! 0, idx ! 1] = int (idx ! 2) \<or> tget c1 [idx ! 0, idx ! 1] < 0)"
  define c3 where "c3 = tand (permute c2 [2, 1, 0]) m3"
  define sp where "sp = masked_fill (permute scores [2, 1, 0]) (tnot c3) NInf"
  have sel: "shape msk ! 0 = B" "shape msk ! 1 = L" by (simp_all add: sm)
  have run: "apply_cands (permute scores [2, 1, 0]) msk c = Inr sp"
    unfolding apply_cands_def Let_def sel
    using L by (simp only: m1_def [symmetric] m2_def [symmetric] m3_def [symmetric]
        c1_def [symmetric] c2_def [symmetric] c3_def [symmetric] sp_def [symmetric]) simp
  have shsp: "shape sp = [L, L, B]" by (simp add: sp_def ss)
  have val: "tget sp [h, d, b] = arc_score scores msk (Some c) h d b"
    if hd: "h < L" "d < L" "b < B" for h d b
  proof -
    have m1v: "tget m1 [b, i] = (i = 0 \<or> tget msk [b, i])" if "i < L" for i
      unfolding m1_def using that hd by (subst tget_index_fill) (auto simp: sm)
    have c1v: "tget c1 [b, d] = (if d = 0 then - 1 else tget c [b, d])"
      unfolding c1_def using hd by (subst tget_index_fill) (auto simp: scd)
    have shc2: "shape c2 = [B, L, L]" by (simp add: c2_def)
    have shm2: "shape m2 = [B, L, L]" by (simp add: m2_def)
    have pc: "tget (permute c2 [2, 1, 0]) [h, d, b] = tget c2 [b, d, h]"
      using hd by (intro tget_permute_210 [OF shc2])
    have pm: "tget m3 [h, d, b] = tget m2 [b, d, h]"
      unfolding m3_def using hd by (intro tget_permute_210 [OF shm2])
    have ps: "tget (permute scores [2, 1, 0]) [h, d, b] = tget scores [b, d, h]"
      using hd by (intro tget_permute_210 [OF ss])
    have c2v: "tget c2 [b, d, h] = (d = 0 \<or> tget c [b, d] = int h \<or> tget c [b, d] < 0)"
      unfolding c2_def using hd by (subst tget_tabulate) (auto simp: c1v)
    have m2v: "tget m2 [b, d, h] = ((h = 0 \<or> tget msk [b, h]) \<and> (d = 0 \<or> tget msk [b, d]))"
      unfolding m2_def using hd by (subst tget_tabulate) (auto simp: m1v)
    have shp: "shape (permute c2 [2, 1, 0]) = [L, L, B]" by (simp add: shc2)
    have c3v: "tget c3 [h, d, b] = (tget c2 [b, d, h] \<and> tget m2 [b, d, h])"
    proof -
      have "in_range (shape (permute c2 [2, 1, 0])) [h, d, b]" unfolding shp using hd by simp
      from tget_tand [OF this] show ?thesis unfolding c3_def by (simp only: pc pm)
    qed
    have shc3: "shape c3 = [L, L, B]" by (simp add: c3_def shc2)
    have nv: "tget (tnot c3) [h, d, b] = (\<not> tget c3 [h, d, b])"
      using hd by (subst tget_tnot) (simp_all add: shc3)
    have shps: "shape (permute scores [2, 1, 0]) = [L, L, B]" by (simp add: ss)
    have "in_range (shape (permute scores [2, 1, 0])) [h, d, b]" unfolding shps using hd by simp
    from tget_masked_fill [OF this]
    have "tget sp [h, d, b] = (if tget (tnot c3) [h, d, b] then NInf else tget (permute scores [2, 1, 0]) [h, d, b])"
      unfolding sp_def .
    then show ?thesis by (simp only: nv c3v ps c2v m2v arc_score_def option.case) auto
  qed
  from run shsp val show ?thesis by blast
qed

lemma dep_init_inv:
  assumes "shape sp = [L, L, B]"
  shows "dep_inv sc lens L B 1 (full_like sp NInf, diagonal_fill (full_like sp NInf) 0 (Fin 0))"
proof -
  have sh: "shape (full_like sp NInf :: fval tensor) = [L, L, B]" using assms by simp
  have "tget (diagonal_fill (full_like sp NInf) 0 (Fin 0)) [i, i, b] = Fin 0" if "i < L" "b < B" for i b
    using that by (simp add: tget_diagonal_fill [OF sh])
  then show ?thesis using assms by (simp add: dep_inv_def)
qed

lemma dep_inside_loop_run:
  assumes sp: "shape sp = [L, L, B]" and sc: "shape scp = [L, L, B]"
  shows "\<exists>st. for_each (inside_step scp lens L True) [1..<L]
                 (full_like sp NInf, diagonal_fill (full_like sp NInf) 0 (Fin 0)) = Inr st
              \<and> dep_inv scp lens L B L st"
proof (cases "L = 0")
  case True
  with dep_init_inv [OF sp, of scp lens] show ?thesis by (simp add: dep_inv_def)
next
  case False
  then have "1 \<le> L" by simp
  from dep_inv_loop [OF sc _ this dep_init_inv [OF sp]] show ?thesis by simp
qed

lemma dep_inside_tables:
  assumes ss: "shape scores = [B, L, L]"
    and cd: "\<And>c. cands = Some c \<Longrightarrow> shape msk = [B, L] \<and> shape c = [B, L] \<and> 0 < L"
  shows "\<exists>sp s_i s_c.
           CRFDependency_inside scores msk cands True = Inr (s_i, s_c)
           \<and> shape sp = [L, L, B]
           \<and> (\<forall>h d b. h < L \<longrightarrow> d < L \<longrightarrow> b < B \<longrightarrow>
                 tget sp [h, d, b] = arc_score scores msk cands h d b)
           \<and> dep_inv sp (sum1 msk) L B L (s_i, s_c)"
proof -
  define p where "p = permute scores [2, 1, 0]"
  have shp: "shape p = [L, L, B]" by (simp add: p_def ss)
  have sl: "shape scores ! 1 = L" by (simp add: ss)
  obtain sp where pre: "(case cands of None \<Rightarrow> Inr p | Some c \<Rightarrow> apply_cands p msk c) = Inr sp"
    and shsp: "shape sp = [L, L, B]"
    and val: "\<And>h d b. h < L \<Longrightarrow> d < L \<Longrightarrow> b < B \<Longrightarrow>
                 tget sp [h, d, b] = arc_score scores msk cands h d b"
  proof (cases cands)
    case None
    have "tget p [h, d, b] = arc_score scores msk None h d b" if "h < L" "d < L" "b < B" for h d b
      unfolding p_def arc_score_def option.case using that by (intro tget_permute_210 [OF ss])
    with None shp that [of p] show ?thesis by simp
  next
    case (Some c)
    from cd [OF Some] have a: "shape msk = [B, L]" "shape c = [B, L]" "0 < L" by simp_all
    from apply_cands_run [OF ss a] Some that show ?thesis unfolding p_def by auto
  qed
  from dep_inside_loop_run [OF shp shsp, of "sum1 msk"]
  obtain st where lp: "for_each (inside_step sp (sum1 msk) L True) [1..<L]
                 (full_like p NInf, diagonal_fill (full_like p NInf) 0 (Fin 0)) = Inr st"
    and inv: "dep_inv sp (sum1 msk) L B L st" by blast
  obtain s_i s_c where st: "st = (s_i, s_c)" by (cases st)
  have "CRFDependency_inside scores msk cands True = Inr (s_i, s_c)"
    unfolding CRFDependency_inside_def Let_def sl p_def [symmetric]
    by (simp only: pre ebind_def sum.case lp st)
  with shsp val inv st show ?thesis by blast
qed

subsection \<open>The tables of a small example\<close>

lemma dep_invD:
  assumes "dep_inv sp lens L B L (s_i, s_c)"
  shows "i < L \<Longrightarrow> b < B \<Longrightarrow> tget s_c [i, i, b] = Fin 0"
    and "0 < w \<Longrightarrow> i + w < L \<Longrightarrow> b < B \<Longrightarrow> dep_recurrence sp lens s_i s_c w i b"
  using assms by (auto simp: dep_inv_def)

lemma ex3_shapes: "shape ex3_scores = [1, 3, 3]" "shape ex3_mask = [1, 3]"
  by (simp_all add: ex3_scores_def ex3_mask_def)

lemma ex3_lens: "sum1 ex3_mask = [2]"
  by (simp add: sum1_def ex3_mask_def count_true_def tget_def upt_conv_Cons)

lemma ex3_score: "i < 3 \<Longrightarrow> j < 3 \<Longrightarrow> tget ex3_scores [0, i, j] = Fin 0"
  by (simp add: ex3_scores_def tget_def)

lemma lse_simps:
  "lse [Fin a] = Fin a"
  "lse [Fin a, NInf] = Fin a"
  "lse [NInf, Fin a] = Fin a"
  "lse [NInf] = NInf"
  "lse [NInf, NInf] = NInf"
  "lse [Fin a, Fin b] = Fin (ln (exp a + exp b))"
proof -
  have "0 < exp a + exp b" by (intro add_pos_pos exp_gt_zero)
  then show "lse [Fin a, Fin b] = Fin (ln (exp a + exp b))" by (simp add: lse_def fsum_def)
qed (simp_all add: lse_def fsum_def)

text \<open>Entries of the tables of the three-position example.\<close>

lemma ex3_tables:
  assumes "CRFDependency_inside ex3_scores ex3_mask None True = Inr (s_i, s_c)"
  shows "tget s_c [0, 1, 0] = NInf"
    and "tget s_i [0, 1, 0] = Fin 0"
    and "right_sum s_i s_c 0 1 0 = Fin 0"
    and "tget s_c [0, 2, 0] = Fin (ln 2)"
proof -
  from dep_inside_tables [OF ex3_shapes(1), of None ex3_mask] assms
  obtain sp where val0: "\<forall>h d b. h < 3 \<longrightarrow> d < 3 \<longrightarrow> b < 1 \<longrightarrow>
                          tget sp [h, d, b] = arc_score ex3_scores ex3_mask None h d b"
    and inv: "dep_inv sp [2] 3 1 3 (s_i, s_c)"
    unfolding ex3_lens by auto
  have sp0: "tget sp [h, d, 0] = Fin 0" if "h < 3" "d < 3" for h d
    using val0 that by (simp add: arc_score_def ex3_score)
  have c00: "tget s_c [0, 0, 0] = Fin 0" and c11: "tget s_c [1, 1, 0] = Fin 0"
    and c22: "tget s_c [2, 2, 0] = Fin 0"
    using dep_invD(1) [OF inv, of 0 0] dep_invD(1) [OF inv, of 1 0] dep_invD(1) [OF inv, of 2 0]
    by simp_all
  note rc = dep_invD(2) [OF inv, unfolded dep_recurrence_def Let_def]
  from rc [of 1 0 0] have w1i0:
    "tget s_i [1, 0, 0] = fadd (arc_sum s_c 0 1 0) (tget sp [1, 0, 0])"
    "tget s_i [0, 1, 0] = fadd (arc_sum s_c 0 1 0) (tget sp [0, 1, 0])"
    "tget s_c [1, 0, 0] = left_sum s_i s_c 0 1 0"
    "tget s_c [0, 1, 0] = NInf"
    by (simp_all del: One_nat_def add: One_nat_def [symmetric])
  from rc [of 1 1 0] have w1i1:
    "tget s_i [2, 1, 0] = fadd (arc_sum s_c 1 2 0) (tget sp [2, 1, 0])"
    "tget s_i [1, 2, 0] = fadd (arc_sum s_c 1 2 0) (tget sp [1, 2, 0])"
    "tget s_c [2, 1, 0] = left_sum s_i s_c 1 2 0"
    "tget s_c [1, 2, 0] = right_sum s_i s_c 1 2 0"
    by (simp_all del: One_nat_def add: One_nat_def [symmetric])
  from rc [of 2 0 0] have w2i0:
    "tget s_i [0, 2, 0] = fadd (arc_sum s_c 0 2 0) (tget sp [0, 2, 0])"
    "tget s_c [0, 2, 0] = right_sum s_i s_c 0 2 0"
    by (simp_all del: One_nat_def add: One_nat_def [symmetric])
  note ev = arc_sum_def left_sum_def right_sum_def upt_conv_Cons lse_simps sp0
    One_nat_def [symmetric]
  note dg = c00 c11 c22
  have i01: "tget s_i [0, 1, 0] = Fin 0" by (simp del: One_nat_def add: ev w1i0 dg)
  have i12: "tget s_i [1, 2, 0] = Fin 0" by (simp del: One_nat_def add: ev w1i1 dg)
  have i21: "tget s_i [2, 1, 0] = Fin 0" by (simp del: One_nat_def add: ev w1i1 dg)
  have c21: "tget s_c [2, 1, 0] = Fin 0"
    by (simp del: One_nat_def add: ev w1i1(3) dg i21)
  have c12: "tget s_c [1, 2, 0] = Fin 0"
    by (simp del: One_nat_def add: ev w1i1(4) dg i12)
  have i02: "tget s_i [0, 2, 0] = Fin 0"
    by (simp del: One_nat_def add: ev w2i0(1) dg c21 w1i0(4))
  show "tget s_c [0, 1, 0] = NInf" by (rule w1i0)
  show "tget s_i [0, 1, 0] = Fin 0" by (rule i01)
  show "right_sum s_i s_c 0 1 0 = Fin 0"
    by (simp del: One_nat_def add: ev i01 dg)
  show "tget s_c [0, 2, 0] = Fin (ln 2)"
    by (simp del: One_nat_def add: ev w2i0(2) i01 c12 i02 dg)
qed

subsection \<open>The forward pass\<close>








section \<open>Further tensor operations\<close>

lemma tget_reduce1:
  assumes sh: "shape t = [n, w, B]" and "b < B" and "r < n"
  shows "tget (logsumexp (permute t [2, 0, 1])) [b, r] = lse (map (\<lambda>c. tget t [r, c, b]) [0..<w])"
proof -
  have el: "tget (permute t [2, 0, 1]) [b, r, c] = tget t [r, c, b]" if "c < w" for c
    using assms that by (intro tget_permute_201 [OF sh])
  have eq: "map (\<lambda>c. tget (permute t [2, 0, 1]) [b, r, c]) [0..<w]
             = map (\<lambda>c. tget t [r, c, b]) [0..<w]"
    by (rule map_cong [OF refl]) (use el in auto)
  have shp: "shape (permute t [2, 0, 1]) = [B, n, w]" using sh by simp
  show ?thesis by (simp only: tget_logsumexp [OF shp assms(2,3)] eq)
qed

lemma shape_reduce1: "shape t = [n, w, B] \<Longrightarrow> shape (logsumexp (permute t [2, 0, 1])) = [B, n]"
  by simp

lemma shape_set_column [simp]: "shape (set_column t c v) = shape t"
  by (simp add: set_column_def)

lemma wf_set_column [simp]: "wf_tensor (set_column t c v)"
  by (simp add: set_column_def)

lemma wf_index_fill [simp]: "wf_tensor (index_fill t d i a)"
  by (simp add: index_fill_def)

lemma tget_set_column:
  assumes "shape t = [n, w, B]" and "r < n" and "c < w" and "b < B"
  shows "tget (set_column t k v) [r, c, b] = (if c = k then tget v [r, b] else tget t [r, c, b])"
  using assms by (simp add: set_column_def tget_tabulate)

lemma tget_squeeze1:
  assumes "shape t = [n, 1, B]" and "r < n" and "b < B"
  shows "tget (squeeze1 t) [r, b] = tget t [r, 0, b]"
  using assms by (simp add: squeeze1_def tget_tabulate)

lemma index_pairs_run:
  assumes "shape t = [L, L, L, B]" and "\<forall>r \<in> set rows. r < L" and "\<forall>c \<in> set cols. c < L"
  shows "index_pairs t rows cols
         = Inr (tabulate [length rows, L, B] (\<lambda>idx. tget t (rows ! (idx ! 0) # cols ! (idx ! 0) # tl idx)))"
  using assms by (auto simp: index_pairs_def list_ex_iff)

lemma upt_snoc_last: "0 < w \<Longrightarrow> [0..<w] = [0..<w - 1] @ [w - 1]"
  by (cases w) simp_all

lemma upt_cons_first: "0 < w \<Longrightarrow> [0..<w] = 0 # [1..<w]"
  by (simp add: upt_conv_Cons)

lemma upt_shift1: "map f [i + 1..<i + w] = map (\<lambda>c. f (i + 1 + c)) [0..<w - 1]"
proof (cases "w = 0")
  case True then show ?thesis by simp
next
  case False
  then have "i + w = (i + 1) + (w - 1)" by simp
  then show ?thesis using upt_shift [of f "i + 1" "w - 1"] by simp
qed

lemma upt_shift_from: "map f [i + a..<i + w] = map (\<lambda>c. f (i + c)) [a..<w]"
proof (induction w)
  case 0 then show ?case by simp
next
  case (Suc w)
  show ?case
  proof (cases "a \<le> w")
    case True with Suc show ?thesis by simp
  next
    case False then show ?thesis by simp
  qed
qed


section \<open>The second-order inside algorithm\<close>

subsection \<open>One iteration\<close>

lemma stripe_bounds_inside2o:
  assumes "0 < w" and "w < L"
  shows "stripe_bounds L L (L - w) w (w, 1) 1"
    and "stripe_bounds L L (L - w) w (1, 0) 0"
    and "stripe_bounds (L - w) L (L - w) w (0, 1) 1"
    and "stripe_bounds L L (L - w) 1 (w, w) 1"
    and "stripe_bounds L L (L - w) 1 (0, w - 1) 1"
    and "stripe_bounds L L (L - w) w (0, 0) 1"
    and "stripe_bounds L L (L - w) w (0, w) 0"
    and "stripe_bounds (L - w) L (L - w) w (0, 0) 1"
    and "stripe_bounds L L (L - w) 1 (0, 0) 1"
    and "stripe_bounds L L (L - w) 1 (w, 1) 1"
  using assms by (auto simp: stripe_bounds_def stripe_src_def)

lemma sib_pairs_left:
  assumes sb: "shape s_sib = [L, L, L, B]" and w: "0 < w" "w < L"
  shows "\<exists>t. index_pairs s_sib [w..<L - w + w] [0..<L - w] = Inr t \<and> shape t = [L - w, L, B]
           \<and> wf_tensor t
           \<and> (\<forall>r k b. r < L - w \<longrightarrow> k < L \<longrightarrow> b < B \<longrightarrow>
                 tget t [r, k, b] = tget s_sib [w + r, r, k, b])"
proof -
  let ?t = "tabulate [length [w..<L - w + w], L, B]
              (\<lambda>idx. tget s_sib ([w..<L - w + w] ! (idx ! 0) # [0..<L - w] ! (idx ! 0) # tl idx))"
  have run: "index_pairs s_sib [w..<L - w + w] [0..<L - w] = Inr ?t"
    using w by (intro index_pairs_run [OF sb]) auto
  have "tget ?t [r, k, b] = tget s_sib [w + r, r, k, b]" if "r < L - w" "k < L" "b < B" for r k b
    using that w by (subst tget_tabulate) simp_all
  moreover have "shape ?t = [L - w, L, B]" using w by simp
  ultimately show ?thesis using run by (intro exI [of _ ?t]) simp
qed

lemma sib_pairs_right:
  assumes sb: "shape s_sib = [L, L, L, B]" and w: "0 < w" "w < L"
  shows "\<exists>t. index_pairs s_sib [0..<L - w] [w..<L - w + w] = Inr t \<and> shape t = [L - w, L, B]
           \<and> wf_tensor t
           \<and> (\<forall>r k b. r < L - w \<longrightarrow> k < L \<longrightarrow> b < B \<longrightarrow>
                 tget t [r, k, b] = tget s_sib [r, w + r, k, b])"
proof -
  let ?t = "tabulate [length [0..<L - w], L, B]
              (\<lambda>idx. tget s_sib ([0..<L - w] ! (idx ! 0) # [w..<L - w + w] ! (idx ! 0) # tl idx))"
  have run: "index_pairs s_sib [0..<L - w] [w..<L - w + w] = Inr ?t"
    using w by (intro index_pairs_run [OF sb]) auto
  have "tget ?t [r, k, b] = tget s_sib [r, w + r, k, b]" if "r < L - w" "k < L" "b < B" for r k b
    using that w by (subst tget_tabulate) simp_all
  moreover have "shape ?t = [L - w, L, B]" using w by simp
  ultimately show ?thesis using run by (intro exI [of _ ?t]) simp
qed

lemma inside2o_step_run:
  assumes si: "shape s_i = [L, L, B]" "wf_tensor s_i"
    and ss: "shape s_s = [L, L, B]" "wf_tensor s_s"
    and sc: "shape s_c = [L, L, B]" "wf_tensor s_c"
    and sa: "shape s_arc = [L, L, B]"
    and sb: "shape s_sib = [L, L, L, B]"
    and w: "0 < w" "w < L"
  shows "\<exists>s_i' s_s' s_c'.
       inside2o_step s_arc s_sib lens L True w (s_i, s_s, s_c) = Inr (s_i', s_s', s_c')
     \<and> shape s_i' = [L, L, B] \<and> wf_tensor s_i' \<and> shape s_s' = [L, L, B] \<and> wf_tensor s_s'
     \<and> shape s_c' = [L, L, B] \<and> wf_tensor s_c'
     \<and> (\<forall>i j b. i < L \<longrightarrow> j < L \<longrightarrow> b < B \<longrightarrow>
           tget s_i' [i, j, b]
             = (if j = i + w
                then fadd (sib_right_sum s_i s_s s_c s_sib i j b) (tget s_arc [i, j, b])
                else if i = j + w
                then fadd (sib_left_sum s_i s_s s_c s_sib j i b) (tget s_arc [i, j, b])
                else tget s_i [i, j, b]))
     \<and> (\<forall>i j b. i < L \<longrightarrow> j < L \<longrightarrow> b < B \<longrightarrow>
           tget s_s' [i, j, b]
             = (if j = i + w then arc_sum s_c i j b
                else if i = j + w then arc_sum s_c j i b
                else tget s_s [i, j, b]))
     \<and> (\<forall>i j b. i < L \<longrightarrow> j < L \<longrightarrow> b < B \<longrightarrow>
           tget s_c' [i, j, b]
             = (if j = i + w then (if i = 0 \<and> lens ! b \<noteq> w then NInf else right_sum s_i' s_c i j b)
                else if i = j + w then left_sum s_i' s_c j i b
                else tget s_c [i, j, b]))"
proof -
  define n where "n = L - w"
  have L: "0 < L" using w by simp
  have n: "0 < n" using w by (simp add: n_def)
  note bd = stripe_bounds_inside [OF w, folded n_def]
  note bd2 = stripe_bounds_inside2o [OF w, folded n_def]
  \<comment> \<open>the leftward incomplete spans\<close>
  obtain A1 where e1: "stripe_t s_i n w (w, 1) 1 = Inr A1"
    using stripe_t_eq [OF si(2) si(1) L L bd2(1)] by blast
  obtain A2 where e2: "stripe_t s_s n w (1, 0) 0 = Inr A2"
    using stripe_t_eq [OF ss(2) ss(1) L L bd2(2)] by blast
  note a1 = stripe_t_tget [OF stripe_t_eq [OF si(2) si(1) L L bd2(1)] e1]
  note a2 = stripe_t_tget [OF stripe_t_eq [OF ss(2) ss(1) L L bd2(2)] e2]
  obtain SL where eL: "index_pairs s_sib [w..<n + w] [0..<n] = Inr SL"
    and sL: "shape SL = [n, L, B]" "wf_tensor SL"
    and vL: "\<And>r k b. r < n \<Longrightarrow> k < L \<Longrightarrow> b < B \<Longrightarrow> tget SL [r, k, b] = tget s_sib [w + r, r, k, b]"
    using sib_pairs_left [OF sb w, folded n_def] by blast
  obtain A3 where e3: "stripe_t SL n w (0, 1) 1 = Inr A3"
    using stripe_t_eq [OF sL(2) sL(1) n L bd2(3)] by blast
  note a3 = stripe_t_tget [OF stripe_t_eq [OF sL(2) sL(1) n L bd2(3)] e3]
  obtain A4 where e4: "stripe_t s_c n 1 (w, w) 1 = Inr A4"
    using stripe_t_eq [OF sc(2) sc(1) L L bd2(4)] by blast
  obtain A5 where e5: "stripe_t s_c n 1 (0, w - 1) 1 = Inr A5"
    using stripe_t_eq [OF sc(2) sc(1) L L bd2(5)] by blast
  note a4 = stripe_t_tget [OF stripe_t_eq [OF sc(2) sc(1) L L bd2(4)] e4]
  note a5 = stripe_t_tget [OF stripe_t_eq [OF sc(2) sc(1) L L bd2(5)] e5]
  define il3 where
    "il3 = set_column (tadd (tadd A1 A2) A3) (w - 1) (squeeze1 (index_fill (tadd A4 A5) 0 0 (Fin 0)))"
  define il where "il = logsumexp (permute il3 [2, 0, 1])"
  define si1 where "si1 = diagonal_copy s_i (- int w) (tadd il (diagonal s_arc (- int w)))"
  have si1: "shape si1 = [L, L, B]" "wf_tensor si1" using si by (simp_all add: si1_def)
  \<comment> \<open>the rightward incomplete spans\<close>
  obtain A6 where e6: "stripe_t si1 n w (0, 0) 1 = Inr A6"
    using stripe_t_eq [OF si1(2) si1(1) L L bd2(6)] by blast
  obtain A7 where e7: "stripe_t s_s n w (0, w) 0 = Inr A7"
    using stripe_t_eq [OF ss(2) ss(1) L L bd2(7)] by blast
  note a6 = stripe_t_tget [OF stripe_t_eq [OF si1(2) si1(1) L L bd2(6)] e6]
  note a7 = stripe_t_tget [OF stripe_t_eq [OF ss(2) ss(1) L L bd2(7)] e7]
  obtain SR where eR: "index_pairs s_sib [0..<n] [w..<n + w] = Inr SR"
    and sR: "shape SR = [n, L, B]" "wf_tensor SR"
    and vR: "\<And>r k b. r < n \<Longrightarrow> k < L \<Longrightarrow> b < B \<Longrightarrow> tget SR [r, k, b] = tget s_sib [r, w + r, k, b]"
    using sib_pairs_right [OF sb w, folded n_def] by blast
  obtain A8 where e8: "stripe_t SR n w (0, 0) 1 = Inr A8"
    using stripe_t_eq [OF sR(2) sR(1) n L bd2(8)] by blast
  note a8 = stripe_t_tget [OF stripe_t_eq [OF sR(2) sR(1) n L bd2(8)] e8]
  obtain A9 where e9: "stripe_t s_c n 1 (0, 0) 1 = Inr A9"
    using stripe_t_eq [OF sc(2) sc(1) L L bd2(9)] by blast
  obtain A10 where e10: "stripe_t s_c n 1 (w, 1) 1 = Inr A10"
    using stripe_t_eq [OF sc(2) sc(1) L L bd2(10)] by blast
  note a9 = stripe_t_tget [OF stripe_t_eq [OF sc(2) sc(1) L L bd2(9)] e9]
  note a10 = stripe_t_tget [OF stripe_t_eq [OF sc(2) sc(1) L L bd2(10)] e10]
  define ir3 where
    "ir3 = set_column (index_fill (tadd (tadd A6 A7) A8) 0 0 NInf) 0 (squeeze1 (tadd A9 A10))"
  define ir where "ir = logsumexp (permute ir3 [2, 0, 1])"
  define si2 where "si2 = diagonal_copy si1 (int w) (tadd ir (diagonal s_arc (int w)))"
  have si2: "shape si2 = [L, L, B]" "wf_tensor si2" using si1 by (simp_all add: si2_def)
  \<comment> \<open>the sibling spans\<close>
  obtain A11 where e11: "stripe_t s_c n w (0, 0) 1 = Inr A11"
    using stripe_t_eq [OF sc(2) sc(1) L L bd(1)] by blast
  obtain A12 where e12: "stripe_t s_c n w (w, 1) 1 = Inr A12"
    using stripe_t_eq [OF sc(2) sc(1) L L bd(2)] by blast
  note a11 = stripe_t_tget [OF stripe_t_eq [OF sc(2) sc(1) L L bd(1)] e11]
  note a12 = stripe_t_tget [OF stripe_t_eq [OF sc(2) sc(1) L L bd(2)] e12]
  define slr where "slr = logsumexp (permute (tadd A11 A12) [2, 0, 1])"
  define ss1 where "ss1 = diagonal_copy s_s (- int w) slr"
  define ss2 where "ss2 = diagonal_copy ss1 (int w) slr"
  have ss1: "shape ss1 = [L, L, B]" using ss by (simp add: ss1_def)
  have ss2: "shape ss2 = [L, L, B]" "wf_tensor ss2" using ss1 by (simp_all add: ss2_def)
  \<comment> \<open>the complete spans\<close>
  obtain A13 where e13: "stripe_t s_c n w (0, 0) 0 = Inr A13"
    using stripe_t_eq [OF sc(2) sc(1) L L bd(3)] by blast
  obtain A14 where e14: "stripe_t si2 n w (w, 0) 1 = Inr A14"
    using stripe_t_eq [OF si2(2) si2(1) L L bd(4)] by blast
  note a13 = stripe_t_tget [OF stripe_t_eq [OF sc(2) sc(1) L L bd(3)] e13]
  note a14 = stripe_t_tget [OF stripe_t_eq [OF si2(2) si2(1) L L bd(4)] e14]
  define cl where "cl = logsumexp (permute (tadd A13 A14) [2, 0, 1])"
  define sc1 where "sc1 = diagonal_copy s_c (- int w) cl"
  have sc1: "shape sc1 = [L, L, B]" "wf_tensor sc1" using sc by (simp_all add: sc1_def)
  obtain A15 where e15: "stripe_t si2 n w (0, 1) 1 = Inr A15"
    using stripe_t_eq [OF si2(2) si2(1) L L bd(5)] by blast
  obtain A16 where e16: "stripe_t sc1 n w (1, w) 0 = Inr A16"
    using stripe_t_eq [OF sc1(2) sc1(1) L L bd(6)] by blast
  note a15 = stripe_t_tget [OF stripe_t_eq [OF si2(2) si2(1) L L bd(5)] e15]
  note a16 = stripe_t_tget [OF stripe_t_eq [OF sc1(2) sc1(1) L L bd(6)] e16]
  define cr where "cr = logsumexp (permute (tadd A15 A16) [2, 0, 1])"
  define sc2 where "sc2 = diagonal_copy sc1 (int w) cr"
  define sc3 where "sc3 = root_fill sc2 w lens"
  have sh2: "shape sc2 = [L, L, B]" using sc1 by (simp add: sc2_def)
  have sc3: "shape sc3 = [L, L, B]" "wf_tensor sc3" using sh2 by (simp_all add: sc3_def)
  have run: "inside2o_step s_arc s_sib lens L True w (s_i, s_s, s_c) = Inr (si2, ss2, sc3)"
    unfolding inside2o_step_def
    by (simp only: Let_def prod.case n_def [symmetric] e1 e2 e3 e4 e5 eL ebind_def
        register_hook_def sum.case if_True il3_def [symmetric] il_def [symmetric]
        si1_def [symmetric] e6 e7 e8 e9 e10 eR ir3_def [symmetric] ir_def [symmetric]
        si2_def [symmetric] e11 e12 slr_def [symmetric] ss1_def [symmetric] ss2_def [symmetric]
        e13 e14 e15 e16 cl_def [symmetric] sc1_def [symmetric] cr_def [symmetric]
        sc2_def [symmetric] sc3_def [symmetric])
  have dl: "diag_len L L (int w) = n" "diag_len L L (- int w) = n"
    using w by (simp_all add: diag_len_def n_def)
  have sh_il3: "shape il3 = [n, w, B]" using a1(1) by (simp add: il3_def)
  have sh_ir3: "shape ir3 = [n, w, B]" using a6(1) by (simp add: ir3_def)
  have shil: "shape il = [B, n]" using sh_il3 by (simp add: il_def)
  have shir: "shape ir = [B, n]" using sh_ir3 by (simp add: ir_def)
  have si1_val: "tget si1 [i, j, b]
                 = (if i = j + w then tget (tadd il (diagonal s_arc (- int w))) [b, j]
                    else tget s_i [i, j, b])"
    if "i < L" "j < L" "b < B" for i j b
  proof (cases "i = j + w")
    case True
    then show ?thesis unfolding si1_def using that by (simp add: tget_diagonal_copy [OF si(1)])
  next
    case False
    then have "int j - int i \<noteq> - int w" by auto
    with False that show ?thesis unfolding si1_def by (simp add: tget_diagonal_copy [OF si(1)])
  qed
  have ilv: "tget il [b, r] = sib_left_sum s_i s_s s_c s_sib r (r + w) b" if "b < B" "r < n" for b r
  proof -
    have rw: "r + w < L" using that by (simp add: n_def)
    have sh12: "shape (tadd (tadd A1 A2) A3) = [n, w, B]" using a1(1) by simp
    have inner: "tget il3 [r, c, b]
                 = fadd (fadd (tget s_i [r + w, r + 1 + c, b]) (tget s_s [r + 1 + c, r, b]))
                        (tget s_sib [r + w, r, r + 1 + c, b])"
      if c: "c < w - 1" for c
    proof -
      have cw: "c < w" "c \<noteq> w - 1" using c by simp_all
      have k: "1 + r + c < L" using c rw by simp
      have "tget il3 [r, c, b] = tget (tadd (tadd A1 A2) A3) [r, c, b]"
        unfolding il3_def using cw \<open>r < n\<close> \<open>b < B\<close> by (simp add: tget_set_column [OF sh12])
      also have "\<dots> = fadd (fadd (tget A1 [r, c, b]) (tget A2 [r, c, b])) (tget A3 [r, c, b])"
        using cw \<open>r < n\<close> \<open>b < B\<close> a1(1) by (simp add: tget_tadd)
      also have "\<dots> = fadd (fadd (tget s_i [r + w, r + 1 + c, b]) (tget s_s [r + 1 + c, r, b]))
                        (tget s_sib [r + w, r, r + 1 + c, b])"
        using cw \<open>r < n\<close> \<open>b < B\<close> k
        by (simp add: a1(2) a2(2) a3(2) stripe_src_def vL add_ac)
      finally show ?thesis .
    qed
    have sh0: "shape (index_fill (tadd A4 A5) 0 0 (Fin 0)) = [n, 1, B]" using a4(1) by simp
    have "tget il3 [r, w - 1, b] = tget (squeeze1 (index_fill (tadd A4 A5) 0 0 (Fin 0))) [r, b]"
      unfolding il3_def using w \<open>r < n\<close> \<open>b < B\<close> by (simp add: tget_set_column [OF sh12])
    also have "\<dots> = tget (index_fill (tadd A4 A5) 0 0 (Fin 0)) [r, 0, b]"
      using \<open>r < n\<close> \<open>b < B\<close> by (rule tget_squeeze1 [OF sh0])
    also have "\<dots> = (if r = 0 then Fin 0 else tget (tadd A4 A5) [r, 0, b])"
      using \<open>r < n\<close> \<open>b < B\<close> a4(1) by (simp add: tget_index_fill)
    also have "\<dots> = (if r = 0 then Fin 0
                      else fadd (tget s_c [r + w, r + w, b]) (tget s_c [r, r + w - 1, b]))"
      using \<open>r < n\<close> \<open>b < B\<close> a4(1) w
      by (simp add: tget_tadd a4(2) a5(2) stripe_src_def add_ac)
    finally have lastv: "tget il3 [r, w - 1, b]
        = (if r = 0 then Fin 0
           else fadd (tget s_c [r + w, r + w, b]) (tget s_c [r, r + w - 1, b]))" .
    have "tget il [b, r] = lse (map (\<lambda>c. tget il3 [r, c, b]) [0..<w])"
      unfolding il_def using sh_il3 that by (rule tget_reduce1)
    also have "[0..<w] = [0..<w - 1] @ [w - 1]" using w(1) by (rule upt_snoc_last)
    also have "map (\<lambda>c. tget il3 [r, c, b]) ([0..<w - 1] @ [w - 1])
             = map (\<lambda>c. fadd (fadd (tget s_i [r + w, r + 1 + c, b]) (tget s_s [r + 1 + c, r, b]))
                              (tget s_sib [r + w, r, r + 1 + c, b])) [0..<w - 1]
               @ [if r = 0 then Fin 0
                  else fadd (tget s_c [r + w, r + w, b]) (tget s_c [r, r + w - 1, b])]"
    proof -
      have "map (\<lambda>c. tget il3 [r, c, b]) [0..<w - 1]
            = map (\<lambda>c. fadd (fadd (tget s_i [r + w, r + 1 + c, b]) (tget s_s [r + 1 + c, r, b]))
                              (tget s_sib [r + w, r, r + 1 + c, b])) [0..<w - 1]"
        by (rule map_cong [OF refl]) (simp add: inner)
      then show ?thesis by (simp only: map_append list.map lastv)
    qed
    also have "lse \<dots> = sib_left_sum s_i s_s s_c s_sib r (r + w) b"
      using upt_shift1 [of "\<lambda>k. fadd (fadd (tget s_i [r + w, k, b]) (tget s_s [k, r, b]))
                              (tget s_sib [r + w, r, k, b])" r w]
      by (simp add: sib_left_sum_def)
    finally show ?thesis .
  qed
  have irv: "tget ir [b, r] = sib_right_sum s_i s_s s_c s_sib r (r + w) b" if "b < B" "r < n" for b r
  proof -
    have rw: "r + w < L" using that by (simp add: n_def)
    have sh12: "shape (index_fill (tadd (tadd A6 A7) A8) 0 0 NInf) = [n, w, B]" using a6(1) by simp
    have inner: "tget ir3 [r, c, b]
                 = (if r = 0 then NInf
                    else fadd (fadd (tget s_i [r, r + c, b]) (tget s_s [r + c, r + w, b]))
                              (tget s_sib [r, r + w, r + c, b]))"
      if c: "c \<in> set [1..<w]" for c
    proof -
      have cw: "c < w" "c \<noteq> 0" using c by simp_all
      have k: "r + c < L" using cw rw by simp
      have s1: "tget si1 [r, r + c, b] = tget s_i [r, r + c, b]"
        using cw k \<open>b < B\<close> by (subst si1_val) simp_all
      then have s1': "tget si1 [r, c + r, b] = tget s_i [r, c + r, b]" by (simp add: add.commute)
      have "tget ir3 [r, c, b] = tget (index_fill (tadd (tadd A6 A7) A8) 0 0 NInf) [r, c, b]"
        unfolding ir3_def using cw \<open>r < n\<close> \<open>b < B\<close> by (simp add: tget_set_column [OF sh12])
      also have "\<dots> = (if r = 0 then NInf else tget (tadd (tadd A6 A7) A8) [r, c, b])"
        using cw \<open>r < n\<close> \<open>b < B\<close> a6(1) by (simp add: tget_index_fill)
      also have "tget (tadd (tadd A6 A7) A8) [r, c, b]
                 = fadd (fadd (tget A6 [r, c, b]) (tget A7 [r, c, b])) (tget A8 [r, c, b])"
        using cw \<open>r < n\<close> \<open>b < B\<close> a6(1) by (simp add: tget_tadd)
      also have "\<dots> = fadd (fadd (tget s_i [r, r + c, b]) (tget s_s [r + c, r + w, b]))
                              (tget s_sib [r, r + w, r + c, b])"
        using cw \<open>r < n\<close> \<open>b < B\<close> k
        by (simp add: a6(2) a7(2) a8(2) stripe_src_def vR s1 s1' add_ac)
      finally show ?thesis .
    qed
    have sh0: "shape (tadd A9 A10) = [n, 1, B]" using a9(1) by simp
    have "tget ir3 [r, 0, b] = tget (squeeze1 (tadd A9 A10)) [r, b]"
      unfolding ir3_def using w \<open>r < n\<close> \<open>b < B\<close> by (simp add: tget_set_column [OF sh12])
    also have "\<dots> = tget (tadd A9 A10) [r, 0, b]"
      using \<open>r < n\<close> \<open>b < B\<close> by (rule tget_squeeze1 [OF sh0])
    also have "\<dots> = fadd (tget s_c [r, r, b]) (tget s_c [r + w, r + 1, b])"
      using \<open>r < n\<close> \<open>b < B\<close> a9(1) w
      by (simp add: tget_tadd a9(2) a10(2) stripe_src_def add_ac)
    finally have firstv: "tget ir3 [r, 0, b]
        = fadd (tget s_c [r, r, b]) (tget s_c [r + w, r + 1, b])" .
    have "tget ir [b, r] = lse (map (\<lambda>c. tget ir3 [r, c, b]) [0..<w])"
      unfolding ir_def using sh_ir3 that by (rule tget_reduce1)
    also have "[0..<w] = 0 # [1..<w]" using w(1) by (rule upt_cons_first)
    also have "map (\<lambda>c. tget ir3 [r, c, b]) (0 # [1..<w])
             = fadd (tget s_c [r, r, b]) (tget s_c [r + w, r + 1, b])
               # map (\<lambda>c. if r = 0 then NInf
                     else fadd (fadd (tget s_i [r, r + c, b]) (tget s_s [r + c, r + w, b]))
                              (tget s_sib [r, r + w, r + c, b])) [1..<w]"
    proof -
      have "map (\<lambda>c. tget ir3 [r, c, b]) [1..<w]
            = map (\<lambda>c. if r = 0 then NInf
                     else fadd (fadd (tget s_i [r, r + c, b]) (tget s_s [r + c, r + w, b]))
                              (tget s_sib [r, r + w, r + c, b])) [1..<w]"
        by (rule map_cong [OF refl]) (rule inner)
      then show ?thesis by (simp only: list.map firstv)
    qed
    also have "lse \<dots> = sib_right_sum s_i s_s s_c s_sib r (r + w) b"
      using upt_shift_from [of "\<lambda>k. if r = 0 then NInf
                              else fadd (fadd (tget s_i [r, k, b]) (tget s_s [k, r + w, b]))
                              (tget s_sib [r, r + w, k, b])" r 1 w]
      by (simp add: sib_right_sum_def)
    finally show ?thesis .
  qed
  have si_val: "tget si2 [i, j, b]
             = (if j = i + w
                then fadd (sib_right_sum s_i s_s s_c s_sib i j b) (tget s_arc [i, j, b])
                else if i = j + w
                then fadd (sib_left_sum s_i s_s s_c s_sib j i b) (tget s_arc [i, j, b])
                else tget s_i [i, j, b])"
    if "i < L" "j < L" "b < B" for i j b
  proof -
    consider (up) "j = i + w" | (lo) "i = j + w" | (other) "j \<noteq> i + w" "i \<noteq> j + w" by blast
    then show ?thesis
    proof cases
      case up
      then have r: "i < n" using that by (simp add: n_def)
      have "tget si2 [i, j, b] = tget (tadd ir (diagonal s_arc (int w))) [b, i]"
        unfolding si2_def using up that by (simp add: tget_diagonal_copy [OF si1(1)])
      also have "\<dots> = fadd (tget ir [b, i]) (tget (diagonal s_arc (int w)) [b, i])"
        using that r by (simp add: tget_tadd shir)
      also have "\<dots> = fadd (sib_right_sum s_i s_s s_c s_sib i j b) (tget s_arc [i, j, b])"
        using that r up w by (simp add: irv tget_diagonal [OF sa] dl diag_index_def)
      finally show ?thesis using up by simp
    next
      case lo
      then have r: "j < n" using that by (simp add: n_def)
      have ne: "int j - int i \<noteq> int w" using lo w by simp
      have "tget si2 [i, j, b] = tget si1 [i, j, b]"
        unfolding si2_def using ne that by (simp add: tget_diagonal_copy [OF si1(1)])
      also have "\<dots> = tget (tadd il (diagonal s_arc (- int w))) [b, j]"
        using lo that by (simp add: si1_val)
      also have "\<dots> = fadd (tget il [b, j]) (tget (diagonal s_arc (- int w)) [b, j])"
        using that r by (simp add: tget_tadd shil)
      also have "\<dots> = fadd (sib_left_sum s_i s_s s_c s_sib j i b) (tget s_arc [i, j, b])"
        using that r lo w by (simp add: ilv tget_diagonal [OF sa] dl diag_index_def add.commute)
      finally show ?thesis using lo w by simp
    next
      case other
      then have ne: "int j - int i \<noteq> int w" by auto
      have "tget si2 [i, j, b] = tget si1 [i, j, b]"
        unfolding si2_def using ne that by (simp add: tget_diagonal_copy [OF si1(1)])
      also have "\<dots> = tget s_i [i, j, b]"
        using other that by (simp add: si1_val)
      finally show ?thesis using other by simp
    qed
  qed
  have slrv: "tget slr [b, r] = arc_sum s_c r (r + w) b" if "b < B" "r < n" for b r
  proof -
    have "tget slr [b, r] = lse (map (\<lambda>c. fadd (tget A11 [r, c, b]) (tget A12 [r, c, b])) [0..<w])"
      unfolding slr_def using a11(1) that by (rule tget_reduce)
    also have "map (\<lambda>c. fadd (tget A11 [r, c, b]) (tget A12 [r, c, b])) [0..<w]
             = map (\<lambda>c. fadd (tget s_c [r, r + c, b]) (tget s_c [r + w, r + c + 1, b])) [0..<w]"
      by (rule map_cong [OF refl]) (use that in \<open>simp add: a11(2) a12(2) stripe_src_def add_ac\<close>)
    finally show ?thesis by (simp add: arc_sum_def upt_shift)
  qed
  have ss_val: "tget ss2 [i, j, b]
             = (if j = i + w then arc_sum s_c i j b
                else if i = j + w then arc_sum s_c j i b
                else tget s_s [i, j, b])"
    if "i < L" "j < L" "b < B" for i j b
  proof -
    consider (up) "j = i + w" | (lo) "i = j + w" | (other) "j \<noteq> i + w" "i \<noteq> j + w" by blast
    then show ?thesis
    proof cases
      case up
      then have r: "i < n" using that by (simp add: n_def)
      show ?thesis unfolding ss2_def using up that r
        by (simp add: tget_diagonal_copy [OF ss1] slrv)
    next
      case lo
      then have r: "j < n" using that by (simp add: n_def)
      have ne: "int j - int i \<noteq> int w" using lo w by simp
      have "tget ss2 [i, j, b] = tget ss1 [i, j, b]"
        unfolding ss2_def using ne that by (simp add: tget_diagonal_copy [OF ss1])
      also have "\<dots> = arc_sum s_c j i b"
        unfolding ss1_def using lo that r
        by (simp add: tget_diagonal_copy [OF ss(1)] slrv add.commute)
      finally show ?thesis using lo w by simp
    next
      case other
      then have ne: "int j - int i \<noteq> int w" "int j - int i \<noteq> - int w" by auto
      have "tget ss2 [i, j, b] = tget ss1 [i, j, b]"
        unfolding ss2_def using ne that by (simp add: tget_diagonal_copy [OF ss1])
      also have "\<dots> = tget s_s [i, j, b]"
        unfolding ss1_def using ne that by (simp add: tget_diagonal_copy [OF ss(1)])
      finally show ?thesis using other by simp
    qed
  qed
  have clv: "tget cl [b, r] = left_sum si2 s_c r (r + w) b"
    if "b < B" "r < n" for b r
  proof -
    have "tget cl [b, r]
          = lse (map (\<lambda>c. fadd (tget A13 [r, c, b]) (tget A14 [r, c, b])) [0..<w])"
      unfolding cl_def using a13(1) that by (rule tget_reduce)
    also have "map (\<lambda>c. fadd (tget A13 [r, c, b]) (tget A14 [r, c, b])) [0..<w]
             = map (\<lambda>c. fadd (tget s_c [r + c, r, b]) (tget si2 [r + w, r + c, b])) [0..<w]"
      by (rule map_cong [OF refl]) (use that in \<open>simp add: a13(2) a14(2) stripe_src_def add_ac\<close>)
    finally show ?thesis by (simp add: left_sum_def upt_shift)
  qed
  have sc1_val: "tget sc1 [i, j, b]
             = (if i = j + w then left_sum si2 s_c j i b else tget s_c [i, j, b])"
    if "i < L" "j < L" "b < B" for i j b
  proof (cases "i = j + w")
    case True
    then have r: "j < n" using that by (simp add: n_def)
    show ?thesis unfolding sc1_def using True that r
      by (simp add: tget_diagonal_copy [OF sc(1)] clv add.commute)
  next
    case False
    then have "int j - int i \<noteq> - int w" by auto
    with False that show ?thesis unfolding sc1_def by (simp add: tget_diagonal_copy [OF sc(1)])
  qed
  have crv: "tget cr [b, r] = right_sum si2 s_c r (r + w) b"
    if "b < B" "r < n" for b r
  proof -
    have "tget cr [b, r]
          = lse (map (\<lambda>c. fadd (tget A15 [r, c, b]) (tget A16 [r, c, b])) [0..<w])"
      unfolding cr_def using a15(1) that by (rule tget_reduce)
    also have "map (\<lambda>c. fadd (tget A15 [r, c, b]) (tget A16 [r, c, b])) [0..<w]
             = map (\<lambda>c. fadd (tget si2 [r, r + 1 + c, b]) (tget s_c [r + 1 + c, r + w, b])) [0..<w]"
    proof (rule map_cong [OF refl])
      fix c assume "c \<in> set [0..<w]"
      then have c: "c < w" by simp
      have "tget sc1 [r + 1 + c, r + w, b] = tget s_c [r + 1 + c, r + w, b]"
        using c that by (subst sc1_val) (auto simp: n_def)
      then show "fadd (tget A15 [r, c, b]) (tget A16 [r, c, b])
                 = fadd (tget si2 [r, r + 1 + c, b]) (tget s_c [r + 1 + c, r + w, b])"
        using c that by (simp add: a15(2) a16(2) stripe_src_def add_ac)
    qed
    also have "lse \<dots> = right_sum si2 s_c r (r + w) b"
      using upt_shift [of "\<lambda>k. fadd (tget si2 [r, k, b]) (tget s_c [k, r + w, b])" "r + 1" w]
      by (simp add: right_sum_def add_ac)
    finally show ?thesis .
  qed
  have sc2_val: "tget sc2 [i, j, b]
        = (if j = i + w then right_sum si2 s_c i j b else tget sc1 [i, j, b])"
    if "i < L" "j < L" "b < B" for i j b
  proof (cases "j = i + w")
    case True
    then have r: "i < n" using that by (simp add: n_def)
    show ?thesis unfolding sc2_def using True that r
      by (simp add: tget_diagonal_copy [OF sc1(1)] crv)
  next
    case False
    then have "int j - int i \<noteq> int w" by auto
    with False that show ?thesis unfolding sc2_def by (simp add: tget_diagonal_copy [OF sc1(1)])
  qed
  have sc_val: "tget sc3 [i, j, b]
             = (if j = i + w then (if i = 0 \<and> lens ! b \<noteq> w then NInf else right_sum si2 s_c i j b)
                else if i = j + w then left_sum si2 s_c j i b
                else tget s_c [i, j, b])"
    if "i < L" "j < L" "b < B" for i j b
  proof -
    have "tget sc3 [i, j, b] = (if i = 0 \<and> j = w \<and> lens ! b \<noteq> w then NInf else tget sc2 [i, j, b])"
      unfolding sc3_def using that by (simp add: tget_root_fill [OF sh2])
    then show ?thesis using that w by (auto simp: sc2_val sc1_val)
  qed
  from run si2 ss2 sc3 si_val ss_val sc_val show ?thesis by blast
qed

subsection \<open>The loop invariant\<close>


lemma sib_left_sum_cong:
  assumes ti: "band_eq L B (j - i) ti ti'" and ts: "band_eq L B (j - i) ts ts'"
    and tc: "band_eq L B (j - i) tc tc'" and ij: "i < j" and j: "j < L" and b: "b < B"
  shows "sib_left_sum ti' ts' tc' sib i j b = sib_left_sum ti ts tc sib i j b"
proof -
  have "fadd (fadd (tget ti' [j, r, b]) (tget ts' [r, i, b])) (tget sib [j, i, r, b])
        = fadd (fadd (tget ti [j, r, b]) (tget ts [r, i, b])) (tget sib [j, i, r, b])"
    if "r \<in> set [i + 1..<j]" for r
  proof -
    from that have r: "i < r" "r < j" by simp_all
    have "tget ti' [j, r, b] = tget ti [j, r, b]"
      using r j b by (intro band_eqD [OF ti]) simp_all
    moreover have "tget ts' [r, i, b] = tget ts [r, i, b]"
      using r j b by (intro band_eqD [OF ts]) simp_all
    ultimately show ?thesis by simp
  qed
  then have m: "map (\<lambda>r. fadd (fadd (tget ti' [j, r, b]) (tget ts' [r, i, b])) (tget sib [j, i, r, b]))
                  [i + 1..<j]
              = map (\<lambda>r. fadd (fadd (tget ti [j, r, b]) (tget ts [r, i, b])) (tget sib [j, i, r, b]))
                  [i + 1..<j]"
    by (intro map_cong refl)
  have "tget tc' [j, j, b] = tget tc [j, j, b]"
    using ij j b by (intro band_eqD [OF tc]) simp_all
  moreover have "tget tc' [i, j - 1, b] = tget tc [i, j - 1, b]"
    using ij j b by (intro band_eqD [OF tc]) simp_all
  ultimately show ?thesis unfolding sib_left_sum_def by (simp only: m)
qed

lemma sib_right_sum_cong:
  assumes ti: "band_eq L B (j - i) ti ti'" and ts: "band_eq L B (j - i) ts ts'"
    and tc: "band_eq L B (j - i) tc tc'" and ij: "i < j" and j: "j < L" and b: "b < B"
  shows "sib_right_sum ti' ts' tc' sib i j b = sib_right_sum ti ts tc sib i j b"
proof -
  have "(if i = 0 then NInf
         else fadd (fadd (tget ti' [i, r, b]) (tget ts' [r, j, b])) (tget sib [i, j, r, b]))
        = (if i = 0 then NInf
           else fadd (fadd (tget ti [i, r, b]) (tget ts [r, j, b])) (tget sib [i, j, r, b]))"
    if "r \<in> set [i + 1..<j]" for r
  proof -
    from that have r: "i < r" "r < j" by simp_all
    have "tget ti' [i, r, b] = tget ti [i, r, b]"
      using r j b by (intro band_eqD [OF ti]) simp_all
    moreover have "tget ts' [r, j, b] = tget ts [r, j, b]"
      using r j b by (intro band_eqD [OF ts]) simp_all
    ultimately show ?thesis by simp
  qed
  then have m: "map (\<lambda>r. if i = 0 then NInf
                     else fadd (fadd (tget ti' [i, r, b]) (tget ts' [r, j, b])) (tget sib [i, j, r, b]))
                  [i + 1..<j]
              = map (\<lambda>r. if i = 0 then NInf
                     else fadd (fadd (tget ti [i, r, b]) (tget ts [r, j, b])) (tget sib [i, j, r, b]))
                  [i + 1..<j]"
    by (intro map_cong refl)
  have "tget tc' [i, i, b] = tget tc [i, i, b]"
    using ij j b by (intro band_eqD [OF tc]) simp_all
  moreover have "tget tc' [j, i + 1, b] = tget tc [j, i + 1, b]"
    using ij j b by (intro band_eqD [OF tc]) simp_all
  ultimately show ?thesis unfolding sib_right_sum_def by (simp only: m)
qed

lemma dep2o_recurrence_cong:
  assumes ti: "band_eq L B (Suc w) s_i s_i'" and ts: "band_eq L B (Suc w) s_s s_s'"
    and tc: "band_eq L B (Suc w) s_c s_c'"
    and w: "0 < w" "i + w < L" "b < B"
  shows "dep2o_recurrence s_arc s_sib lens s_i' s_s' s_c' w i b
         = dep2o_recurrence s_arc s_sib lens s_i s_s s_c w i b"
proof -
  have tcw: "band_eq L B (i + w - i) s_c s_c'" using tc by (rule band_eq_mono) simp
  have tsw: "band_eq L B (i + w - i) s_s s_s'" using ts by (rule band_eq_mono) simp
  have tiw': "band_eq L B (i + w - i) s_i s_i'" using ti by (rule band_eq_mono) simp
  have tiw: "band_eq L B (Suc (i + w - i)) s_i s_i'" using ti by simp
  have lt: "i < i + w" using w by simp
  note a = arc_sum_cong [OF tcw lt w(2,3)]
  note l = left_sum_cong [OF tcw tiw lt w(2,3)]
  note r = right_sum_cong [OF tcw tiw lt w(2,3)]
  note sl = sib_left_sum_cong [OF tiw' tsw tcw lt w(2,3)]
  note sr = sib_right_sum_cong [OF tiw' tsw tcw lt w(2,3)]
  have e: "tget s_i' [i + w, i, b] = tget s_i [i + w, i, b]"
          "tget s_i' [i, i + w, b] = tget s_i [i, i + w, b]"
          "tget s_s' [i + w, i, b] = tget s_s [i + w, i, b]"
          "tget s_s' [i, i + w, b] = tget s_s [i, i + w, b]"
          "tget s_c' [i + w, i, b] = tget s_c [i + w, i, b]"
          "tget s_c' [i, i + w, b] = tget s_c [i, i + w, b]"
    using w by (auto intro!: band_eqD [OF ti] band_eqD [OF ts] band_eqD [OF tc])
  show ?thesis unfolding dep2o_recurrence_def Let_def by (simp only: a l r sl sr e)
qed

lemma dep2o_inv_step:
  assumes inv: "dep2o_inv s_arc s_sib lens L B k st" and sa: "shape s_arc = [L, L, B]"
    and sb: "shape s_sib = [L, L, L, B]"
    and k: "0 < k" "k < L"
  shows "\<exists>st'. inside2o_step s_arc s_sib lens L True k st = Inr st'
               \<and> dep2o_inv s_arc s_sib lens L B (Suc k) st'"
proof -
  obtain s_i s_s s_c where st: "st = (s_i, s_s, s_c)" by (cases st)
  from inv st have si: "shape s_i = [L, L, B]" "wf_tensor s_i"
    and ss: "shape s_s = [L, L, B]" "wf_tensor s_s"
    and sc: "shape s_c = [L, L, B]" "wf_tensor s_c"
    and dg: "\<And>i b. i < L \<Longrightarrow> b < B \<Longrightarrow> tget s_c [i, i, b] = Fin 0"
    and rc: "\<And>w i b. 0 < w \<Longrightarrow> w < k \<Longrightarrow> i + w < L \<Longrightarrow> b < B
               \<Longrightarrow> dep2o_recurrence s_arc s_sib lens s_i s_s s_c w i b"
    by (auto simp: dep2o_inv_def)
  from inside2o_step_run [OF si ss sc sa sb k, of lens]
  obtain s_i' s_s' s_c' where
        run: "inside2o_step s_arc s_sib lens L True k (s_i, s_s, s_c) = Inr (s_i', s_s', s_c')"
    and si': "shape s_i' = [L, L, B]" "wf_tensor s_i'"
    and ss': "shape s_s' = [L, L, B]" "wf_tensor s_s'"
    and sc': "shape s_c' = [L, L, B]" "wf_tensor s_c'"
    and vi: "\<And>i j b. i < L \<Longrightarrow> j < L \<Longrightarrow> b < B \<Longrightarrow>
           tget s_i' [i, j, b]
             = (if j = i + k
                then fadd (sib_right_sum s_i s_s s_c s_sib i j b) (tget s_arc [i, j, b])
                else if i = j + k
                then fadd (sib_left_sum s_i s_s s_c s_sib j i b) (tget s_arc [i, j, b])
                else tget s_i [i, j, b])"
    and vs: "\<And>i j b. i < L \<Longrightarrow> j < L \<Longrightarrow> b < B \<Longrightarrow>
           tget s_s' [i, j, b]
             = (if j = i + k then arc_sum s_c i j b
                else if i = j + k then arc_sum s_c j i b
                else tget s_s [i, j, b])"
    and vc: "\<And>i j b. i < L \<Longrightarrow> j < L \<Longrightarrow> b < B \<Longrightarrow>
           tget s_c' [i, j, b]
             = (if j = i + k then (if i = 0 \<and> lens ! b \<noteq> k then NInf else right_sum s_i' s_c i j b)
                else if i = j + k then left_sum s_i' s_c j i b
                else tget s_c [i, j, b])"
    by blast
  have bi: "band_eq L B k s_i s_i'" by (auto simp: band_eq_def vi)
  have bs: "band_eq L B k s_s s_s'" by (auto simp: band_eq_def vs)
  have bc: "band_eq L B k s_c s_c'" by (auto simp: band_eq_def vc)
  have dg': "tget s_c' [i, i, b] = Fin 0" if "i < L" "b < B" for i b
    using that k by (simp add: vc dg)
  have rc': "dep2o_recurrence s_arc s_sib lens s_i' s_s' s_c' w i b"
    if w: "0 < w" "w < Suc k" "i + w < L" "b < B" for w i b
  proof (cases "w = k")
    case False
    with w have wk: "w < k" by simp
    have sw: "Suc w \<le> k" using wk by simp
    have "dep2o_recurrence s_arc s_sib lens s_i' s_s' s_c' w i b
          = dep2o_recurrence s_arc s_sib lens s_i s_s s_c w i b"
      by (rule dep2o_recurrence_cong [OF band_eq_mono [OF bi sw] band_eq_mono [OF bs sw]
            band_eq_mono [OF bc sw] w(1,3,4)])
    with rc [OF w(1) wk w(3,4)] show ?thesis by simp
  next
    case True
    have lt: "i < i + k" using k by simp
    have jl: "i + k < L" using w True by simp
    have bi0: "band_eq L B (i + k - i) s_i s_i'" using bi by simp
    have bs0: "band_eq L B (i + k - i) s_s s_s'" using bs by simp
    have bc0: "band_eq L B (i + k - i) s_c s_c'" using bc by simp
    have bii: "band_eq L B (Suc (i + k - i)) s_i' s_i'" by (simp add: band_eq_def)
    have a: "arc_sum s_c' i (i + k) b = arc_sum s_c i (i + k) b"
      by (rule arc_sum_cong [OF bc0 lt jl w(4)])
    have l: "left_sum s_i' s_c' i (i + k) b = left_sum s_i' s_c i (i + k) b"
      by (rule left_sum_cong [OF bc0 bii lt jl w(4)])
    have r: "right_sum s_i' s_c' i (i + k) b = right_sum s_i' s_c i (i + k) b"
      by (rule right_sum_cong [OF bc0 bii lt jl w(4)])
    have sl: "sib_left_sum s_i' s_s' s_c' s_sib i (i + k) b = sib_left_sum s_i s_s s_c s_sib i (i + k) b"
      by (rule sib_left_sum_cong [OF bi0 bs0 bc0 lt jl w(4)])
    have sr: "sib_right_sum s_i' s_s' s_c' s_sib i (i + k) b = sib_right_sum s_i s_s s_c s_sib i (i + k) b"
      by (rule sib_right_sum_cong [OF bi0 bs0 bc0 lt jl w(4)])
    have il: "i < L" using jl by simp
    show ?thesis
      unfolding dep2o_recurrence_def Let_def True a l r sl sr
      using k by (simp add: vi [OF jl il w(4)] vi [OF il jl w(4)] vs [OF jl il w(4)]
          vs [OF il jl w(4)] vc [OF jl il w(4)] vc [OF il jl w(4)])
  qed
  from run si' ss' sc' dg' rc' show ?thesis by (auto simp: dep2o_inv_def st)
qed

lemma dep2o_inv_loop:
  assumes sa: "shape s_arc = [L, L, B]" and sb: "shape s_sib = [L, L, L, B]"
  shows "0 < k \<Longrightarrow> k \<le> L \<Longrightarrow> dep2o_inv s_arc s_sib lens L B k st
         \<Longrightarrow> \<exists>st'. for_each (inside2o_step s_arc s_sib lens L True) [k..<L] st = Inr st'
               \<and> dep2o_inv s_arc s_sib lens L B L st'"
proof (induction "L - k" arbitrary: k st)
  case 0
  then have "k = L" by simp
  with 0 show ?case by simp
next
  case (Suc d)
  then have kL: "k < L" by simp
  from dep2o_inv_step [OF Suc.prems(3) sa sb Suc.prems(1) kL]
  obtain st1 where s1: "inside2o_step s_arc s_sib lens L True k st = Inr st1"
    and i1: "dep2o_inv s_arc s_sib lens L B (Suc k) st1" by blast
  have "d = L - Suc k" using Suc.hyps(2) by simp
  from Suc.hyps(1) [OF this _ _ i1] kL
  obtain st' where "for_each (inside2o_step s_arc s_sib lens L True) [Suc k..<L] st1 = Inr st'"
    and "dep2o_inv s_arc s_sib lens L B L st'" by auto
  with s1 kL show ?case by (simp add: upt_conv_Cons ebind_def)
qed

lemma dep2o_init_inv:
  assumes "shape sp = [L, L, B]"
  shows "dep2o_inv sa sb lens L B 1
           (full_like sp NInf, full_like sp NInf, diagonal_fill (full_like sp NInf) 0 (Fin 0))"
proof -
  have sh: "shape (full_like sp NInf :: fval tensor) = [L, L, B]" using assms by simp
  have "tget (diagonal_fill (full_like sp NInf) 0 (Fin 0)) [i, i, b] = Fin 0" if "i < L" "b < B" for i b
    using that by (simp add: tget_diagonal_fill [OF sh])
  then show ?thesis using assms by (simp add: dep2o_inv_def)
qed

lemma dep2o_inside_loop_run:
  assumes sp: "shape sp = [L, L, B]" and sc: "shape scp = [L, L, B]"
    and sb: "shape sib = [L, L, L, B]"
  shows "\<exists>st. for_each (inside2o_step scp sib lens L True) [1..<L]
                 (full_like sp NInf, full_like sp NInf,
                  diagonal_fill (full_like sp NInf) 0 (Fin 0)) = Inr st
              \<and> dep2o_inv scp sib lens L B L st"
proof (cases "L = 0")
  case True
  with dep2o_init_inv [OF sp, of scp sib lens] show ?thesis by (simp add: dep2o_inv_def)
next
  case False
  then have "1 \<le> L" by simp
  from dep2o_inv_loop [OF sc sb _ this dep2o_init_inv [OF sp]] show ?thesis by simp
qed

lemma dep2o_inside_tables:
  assumes sa: "shape s_arc = [B, L, L]" and sb: "shape s_sib = [B, L, L, L]"
    and cd: "\<And>c. cands = Some c \<Longrightarrow> shape msk = [B, L] \<and> shape c = [B, L] \<and> 0 < L"
  shows "\<exists>sp s_i s_s s_c.
           CRF2oDependency_inside (s_arc, s_sib) msk cands True = Inr (s_i, s_s, s_c)
           \<and> shape sp = [L, L, B]
           \<and> (\<forall>h d b. h < L \<longrightarrow> d < L \<longrightarrow> b < B \<longrightarrow>
                 tget sp [h, d, b] = arc_score s_arc msk cands h d b)
           \<and> dep2o_inv sp (permute s_sib [2, 1, 3, 0]) (sum1 msk) L B L (s_i, s_s, s_c)"
proof -
  define p where "p = permute s_arc [2, 1, 0]"
  define q where "q = permute s_sib [2, 1, 3, 0]"
  have shp: "shape p = [L, L, B]" by (simp add: p_def sa)
  have shq: "shape q = [L, L, L, B]" by (simp add: q_def sb)
  have sl: "shape s_arc ! 1 = L" by (simp add: sa)
  obtain sp where pre: "(case cands of None \<Rightarrow> Inr p | Some c \<Rightarrow> apply_cands p msk c) = Inr sp"
    and shsp: "shape sp = [L, L, B]"
    and val: "\<And>h d b. h < L \<Longrightarrow> d < L \<Longrightarrow> b < B \<Longrightarrow>
                 tget sp [h, d, b] = arc_score s_arc msk cands h d b"
  proof (cases cands)
    case None
    have "tget p [h, d, b] = arc_score s_arc msk None h d b" if "h < L" "d < L" "b < B" for h d b
      unfolding p_def arc_score_def option.case using that by (intro tget_permute_210 [OF sa])
    with None shp that [of p] show ?thesis by simp
  next
    case (Some c)
    from cd [OF Some] have a: "shape msk = [B, L]" "shape c = [B, L]" "0 < L" by simp_all
    from apply_cands_run [OF sa a] Some that show ?thesis unfolding p_def by auto
  qed
  from dep2o_inside_loop_run [OF shp shsp shq, of "sum1 msk"]
  obtain st where lp: "for_each (inside2o_step sp q (sum1 msk) L True) [1..<L]
                 (full_like p NInf, full_like p NInf,
                  diagonal_fill (full_like p NInf) 0 (Fin 0)) = Inr st"
    and inv: "dep2o_inv sp q (sum1 msk) L B L st" by blast
  obtain s_i s_s s_c where st: "st = (s_i, s_s, s_c)" by (cases st)
  have "CRF2oDependency_inside (s_arc, s_sib) msk cands True = Inr (s_i, s_s, s_c)"
    unfolding CRF2oDependency_inside_def Let_def prod.case sl p_def [symmetric] q_def [symmetric]
    by (simp only: pre ebind_def sum.case lp st)
  with shsp val inv st show ?thesis unfolding q_def by blast
qed

subsection \<open>The tables of the small example\<close>

lemma dep2o_invD:
  assumes "dep2o_inv sp sib lens L B L (s_i, s_s, s_c)"
  shows "i < L \<Longrightarrow> b < B \<Longrightarrow> tget s_c [i, i, b] = Fin 0"
    and "0 < w \<Longrightarrow> i + w < L \<Longrightarrow> b < B \<Longrightarrow> dep2o_recurrence sp sib lens s_i s_s s_c w i b"
  using assms by (auto simp: dep2o_inv_def)

lemma ex3_sib_shape: "shape ex3_sib = [1, 3, 3, 3]"
  by (simp add: ex3_sib_def)




section \<open>The constituency inside algorithm\<close>














section \<open>The forward passes\<close>




lemma CRFConstituency_forward_cases:
  "CRFConstituency_forward G scores msk None mbr_arg partial_arg = Inr r
   \<Longrightarrow> r = Probs (if default_arg False mbr_arg then G (const_logZ msk) scores else scores)"
  "CRFConstituency_forward G scores msk (Some t) mbr_arg partial_arg = Inr r
   \<Longrightarrow> \<exists>loss. r = LossProbs loss
                    (if default_arg False mbr_arg then G (const_logZ msk) scores else scores)"
  by (auto simp: CRFConstituency_forward_def Let_def ebind_def simp del: indices.simps
      split: sum.splits if_splits)










section \<open>Small examples with all scores zero\<close>




















subsection \<open>Reductions over nothing but \<open>-\<infinity>\<close>\<close>





section \<open>The reductions and their hooks\<close>













section \<open>The claims about the first-order dependency CRF\<close>

text \<open>
  Claim C1, as amended. For scores of shape \<open>[B, L, L]\<close>, \<^verbatim>\<open>CRFDependency.inside\<close> returns
  tables \<open>(s_i, s_c)\<close> such that \<open>C(i, i) = 0\<close> for all \<open>i\<close>, before the loop runs and at the
  end, and such that for every width \<open>w\<close> from 1 to \<open>L - 1\<close> and every span \<open>(i, j)\<close> with
  \<open>j = i + w\<close>: both incomplete entries \<open>I(j, i)\<close> and \<open>I(i, j)\<close> are the log-sum-exp over
  \<open>r\<close> in \<open>[i, j)\<close> of \<open>C(i, r) + C(j, r + 1)\<close> plus the score of the arc; the leftward
  complete entry \<open>C(j, i)\<close> is the log-sum-exp over \<open>r\<close> in \<open>[i, j)\<close> of
  \<open>C(r, i) + I(j, r)\<close>; and the rightward complete entry \<open>C(i, j)\<close> is the log-sum-exp over
  \<open>r\<close> in \<open>(i, j]\<close> of \<open>I(i, r) + C(r, j)\<close>, except at \<open>i = 0\<close> when \<open>w\<close> is not the
  length of the sentence, where it is \<open>-\<infinity>\<close>.
\<close>

theorem CRFDependency_inside_recurrence:
  assumes "shape scores = [B, L, L]" and "shape msk = [B, L]"
  shows "\<exists>s_i s_c. CRFDependency_inside scores msk None True = Inr (s_i, s_c)
     \<and> (\<forall>i b. i < L \<longrightarrow> b < B \<longrightarrow>
           tget (diagonal_fill (full_like (permute scores [2, 1, 0]) NInf) 0 (Fin 0)) [i, i, b] = Fin 0
           \<and> tget s_c [i, i, b] = Fin 0)
     \<and> (\<forall>w i b. 0 < w \<longrightarrow> i + w < L \<longrightarrow> b < B \<longrightarrow>
           tget s_i [i + w, i, b] = fadd (arc_sum s_c i (i + w) b) (tget scores [b, i, i + w])
         \<and> tget s_i [i, i + w, b] = fadd (arc_sum s_c i (i + w) b) (tget scores [b, i + w, i])
         \<and> tget s_c [i + w, i, b] = left_sum s_i s_c i (i + w) b
         \<and> tget s_c [i, i + w, b]
             = (if i = 0 \<and> sum1 msk ! b \<noteq> w then NInf else right_sum s_i s_c i (i + w) b))"
proof -
  from dep_inside_tables [OF assms(1), of None msk]
  obtain sp s_i s_c where run: "CRFDependency_inside scores msk None True = Inr (s_i, s_c)"
    and val0: "\<forall>h d b. h < L \<longrightarrow> d < L \<longrightarrow> b < B \<longrightarrow> tget sp [h, d, b] = arc_score scores msk None h d b"
    and inv: "dep_inv sp (sum1 msk) L B L (s_i, s_c)"
    by blast
  from val0 have val: "\<And>h d b. h < L \<Longrightarrow> d < L \<Longrightarrow> b < B \<Longrightarrow> tget sp [h, d, b] = arc_score scores msk None h d b"
    by blast
  have sh: "shape (full_like (permute scores [2, 1, 0]) NInf :: fval tensor) = [L, L, B]"
    using assms by simp
  have d0: "tget (diagonal_fill (full_like (permute scores [2, 1, 0]) NInf) 0 (Fin 0)) [i, i, b] = Fin 0"
    if "i < L" "b < B" for i b
    using that tget_diagonal_fill [OF sh, of i i b 0 "Fin 0"] by simp
  have rc: "tget s_i [i + w, i, b] = fadd (arc_sum s_c i (i + w) b) (tget scores [b, i, i + w])
         \<and> tget s_i [i, i + w, b] = fadd (arc_sum s_c i (i + w) b) (tget scores [b, i + w, i])
         \<and> tget s_c [i + w, i, b] = left_sum s_i s_c i (i + w) b
         \<and> tget s_c [i, i + w, b]
             = (if i = 0 \<and> sum1 msk ! b \<noteq> w then NInf else right_sum s_i s_c i (i + w) b)"
    if "0 < w" "i + w < L" "b < B" for w i b
  proof -
    have il: "i < L" using that by simp
    from dep_invD(2) [OF inv that] val [OF that(2) il that(3)] val [OF il that(2,3)]
    show ?thesis by (simp add: dep_recurrence_def Let_def arc_score_def)
  qed
  from run d0 dep_invD(1) [OF inv] rc show ?thesis by blast
qed

text \<open>The theorem at the example of three positions.\<close>

theorem CRFDependency_inside_recurrence_witness:
  "shape ex3_scores = [1, 3, 3] \<and> shape ex3_mask = [1, 3]
   \<and> (\<exists>s_i s_c. CRFDependency_inside ex3_scores ex3_mask None True = Inr (s_i, s_c)
         \<and> tget s_c [1, 1, 0] = Fin 0
         \<and> tget s_i [2, 0, 0] = fadd (arc_sum s_c 0 2 0) (tget ex3_scores [0, 0, 2])
         \<and> tget s_c [2, 0, 0] = left_sum s_i s_c 0 2 0
         \<and> tget s_c [0, 2, 0] = right_sum s_i s_c 0 2 0
         \<and> tget s_c [0, 1, 0] = NInf)"
proof -
  from CRFDependency_inside_recurrence [OF ex3_shapes]
  obtain s_i s_c where run: "CRFDependency_inside ex3_scores ex3_mask None True = Inr (s_i, s_c)"
    and dg: "\<forall>i b. i < 3 \<longrightarrow> b < 1 \<longrightarrow>
           tget (diagonal_fill (full_like (permute ex3_scores [2, 1, 0]) NInf) 0 (Fin 0)) [i, i, b] = Fin 0
           \<and> tget s_c [i, i, b] = Fin 0"
    and rc: "\<forall>w i b. 0 < w \<longrightarrow> i + w < 3 \<longrightarrow> b < 1 \<longrightarrow>
           tget s_i [i + w, i, b] = fadd (arc_sum s_c i (i + w) b) (tget ex3_scores [b, i, i + w])
         \<and> tget s_i [i, i + w, b] = fadd (arc_sum s_c i (i + w) b) (tget ex3_scores [b, i + w, i])
         \<and> tget s_c [i + w, i, b] = left_sum s_i s_c i (i + w) b
         \<and> tget s_c [i, i + w, b]
             = (if i = 0 \<and> sum1 ex3_mask ! b \<noteq> w then NInf else right_sum s_i s_c i (i + w) b)"
    by blast
  from dg [rule_format, of 1 0] have a: "tget s_c [1, 1, 0] = Fin 0" by simp
  from rc [rule_format, of 2 0 0] have b:
    "tget s_i [2, 0, 0] = fadd (arc_sum s_c 0 2 0) (tget ex3_scores [0, 0, 2])"
    "tget s_c [2, 0, 0] = left_sum s_i s_c 0 2 0"
    "tget s_c [0, 2, 0] = right_sum s_i s_c 0 2 0"
    by (simp_all del: One_nat_def add: One_nat_def [symmetric] ex3_lens)
  from rc [rule_format, of 1 0 0] have c: "tget s_c [0, 1, 0] = NInf"
    by (simp add: ex3_lens)
  from run a b c ex3_shapes show ?thesis by blast
qed

text \<open>
  Claim C1 as stated has no exception at the root. In the example of three positions (a
  sentence of length 2) the entry \<open>C(0, 1)\<close> is \<open>-\<infinity>\<close>, while the log-sum-exp over \<open>r\<close> in
  \<open>(0, 1]\<close> of \<open>I(0, r) + C(r, 1)\<close> is 0.
\<close>

theorem CRFDependency_inside_root_counterexample:
  "\<not> isl (CRFDependency_inside ex3_scores ex3_mask None True)
   \<and> tget (snd (projr (CRFDependency_inside ex3_scores ex3_mask None True))) [0, 1, 0] = NInf
   \<and> right_sum (fst (projr (CRFDependency_inside ex3_scores ex3_mask None True)))
        (snd (projr (CRFDependency_inside ex3_scores ex3_mask None True))) 0 1 0 = Fin 0"
proof -
  from dep_inside_tables [OF ex3_shapes(1), of None ex3_mask]
  obtain s_i s_c where run: "CRFDependency_inside ex3_scores ex3_mask None True = Inr (s_i, s_c)"
    by auto
  from ex3_tables(1,3) [OF run] show ?thesis by (simp add: run)
qed




section \<open>The claims about the second-order dependency CRF\<close>




section \<open>Root exclusivity in both dependency CRFs\<close>

text \<open>
  Claim C5. For well-shaped inputs (scores of shape \<open>[B, L, L]\<close>, sibling scores of shape
  \<open>[B, L, L, L]\<close>, a mask of shape \<open>[B, L]\<close>), both \<^verbatim>\<open>CRFDependency.inside\<close> and
  \<^verbatim>\<open>CRF2oDependency.inside\<close> return, and in the tables they return the complete span
  \<open>s_c[0, w]\<close> of every batch element is \<open>-\<infinity>\<close> for every width \<open>w\<close> from 1 to \<open>L - 1\<close>
  other than the length of its sentence.
\<close>

theorem root_exclusivity:
  assumes "shape scores = [B, L, L]" and "shape s_sib = [B, L, L, L]" and "shape msk = [B, L]"
  shows "\<exists>s_i s_c t_i t_s t_c.
           CRFDependency_inside scores msk None True = Inr (s_i, s_c)
         \<and> CRF2oDependency_inside (scores, s_sib) msk None True = Inr (t_i, t_s, t_c)
         \<and> (\<forall>w b. 1 \<le> w \<longrightarrow> w \<le> L - 1 \<longrightarrow> b < B \<longrightarrow> w \<noteq> sum1 msk ! b \<longrightarrow>
               tget s_c [0, w, b] = NInf \<and> tget t_c [0, w, b] = NInf)"
proof -
  from dep_inside_tables [OF assms(1), of None msk]
  obtain sp s_i s_c where run: "CRFDependency_inside scores msk None True = Inr (s_i, s_c)"
    and inv: "dep_inv sp (sum1 msk) L B L (s_i, s_c)"
    by blast
  from dep2o_inside_tables [OF assms(1,2), of None msk]
  obtain tp t_i t_s t_c
    where run2: "CRF2oDependency_inside (scores, s_sib) msk None True = Inr (t_i, t_s, t_c)"
    and inv2: "dep2o_inv tp (permute s_sib [2, 1, 3, 0]) (sum1 msk) L B L (t_i, t_s, t_c)"
    by blast
  have "tget s_c [0, w, b] = NInf \<and> tget t_c [0, w, b] = NInf"
    if "1 \<le> w" "w \<le> L - 1" "b < B" "w \<noteq> sum1 msk ! b" for w b
  proof -
    have w: "0 < w" "0 + w < L" using that by simp_all
    from dep_invD(2) [OF inv w that(3)] dep2o_invD(2) [OF inv2 w that(3)] that(4)
    show ?thesis by (auto simp: dep_recurrence_def dep2o_recurrence_def Let_def)
  qed
  with run run2 show ?thesis by blast
qed

theorem root_exclusivity_witness:
  "shape ex3_scores = [1, 3, 3] \<and> shape ex3_sib = [1, 3, 3, 3] \<and> shape ex3_mask = [1, 3]
   \<and> sum1 ex3_mask = [2]
   \<and> (\<exists>s_i s_c t_i t_s t_c.
           CRFDependency_inside ex3_scores ex3_mask None True = Inr (s_i, s_c)
         \<and> CRF2oDependency_inside (ex3_scores, ex3_sib) ex3_mask None True = Inr (t_i, t_s, t_c)
         \<and> tget s_c [0, 1, 0] = NInf \<and> tget t_c [0, 1, 0] = NInf)"
proof -
  from root_exclusivity [OF ex3_shapes(1) ex3_sib_shape ex3_shapes(2)]
  obtain s_i s_c t_i t_s t_c
    where run: "CRFDependency_inside ex3_scores ex3_mask None True = Inr (s_i, s_c)"
      "CRF2oDependency_inside (ex3_scores, ex3_sib) ex3_mask None True = Inr (t_i, t_s, t_c)"
    and ex: "\<forall>w b. 1 \<le> w \<longrightarrow> w \<le> 3 - 1 \<longrightarrow> b < 1 \<longrightarrow> w \<noteq> sum1 ex3_mask ! b \<longrightarrow>
               tget s_c [0, w, b] = NInf \<and> tget t_c [0, w, b] = NInf"
    by blast
  from ex [rule_format, of 1 0] have "tget s_c [0, 1, 0] = NInf \<and> tget t_c [0, 1, 0] = NInf"
    by (simp add: ex3_lens)
  with run ex3_shapes ex3_sib_shape ex3_lens show ?thesis by blast
qed

section \<open>The claim about the constituency CRF\<close>



section \<open>The entry points\<close>




section \<open>The zero-score examples\<close>




section \<open>The gradient hooks\<close>



end
